theory Spec2Isabelle
  imports Main
begin

section \<open>The store: nodes addressed by pointers\<close>

text \<open>
  The Go program builds its tree from heap objects linked by pointers in both directions
  (\<^verbatim>\<open>Parent\<close> and \<^verbatim>\<open>Child\<close>), and several operations are decided by pointer
  identity (\<^verbatim>\<open>n.Parent == n\<close>, \<^verbatim>\<open>n == p.Child[lo]\<close>). The model therefore keeps an
  explicit store: a pointer is an address, \<open>None\<close> is \<^verbatim>\<open>nil\<close>, and every operation
  takes the store and returns the store it leaves behind.

  Go is memory safe: a non-nil pointer always refers to an object. The store is a total
  function from addresses to nodes for that reason; \<open>fresh\<close> is the next address that
  \<^verbatim>\<open>&BasicBST{...}\<close> hands out. Nodes are never freed (a detached node stays alive as
  long as a handle to it exists).
\<close>

type_synonym addr = nat

text \<open>The run-time panics the code can raise.\<close>

datatype fault = NilDereference | IndexOutOfRange

text \<open>
  \<^verbatim>\<open>type BasicBST struct { Key KeyType; Value interface{}; Parent *BasicBST;
  Child [2]*BasicBST; Height int }\<close>. \<^verbatim>\<open>Key\<close> and \<^verbatim>\<open>Value\<close> are interface values, so both
  can be \<^verbatim>\<open>nil\<close> (they are in the sentinel). The two slots of \<^verbatim>\<open>Child\<close> are the
  fields \<open>Child_lo\<close> and \<open>Child_hi\<close>; indexing by a computed side goes through
  \<open>Child\<close> and \<open>Child_upd\<close> below.
\<close>

record ('k, 'v) BasicBST =
  Key :: "'k option"
  Value :: "'v option"
  Parent :: "addr option"
  Child_lo :: "addr option"
  Child_hi :: "addr option"
  Height :: int

record ('k, 'v) store =
  cell :: "addr \<Rightarrow> ('k, 'v) BasicBST"
  fresh :: addr

text \<open>\<^verbatim>\<open>const ( lo = iota; hi )\<close>\<close>

definition lo :: int where
  "lo = 0"

definition hi :: int where
  "hi = 1"

text \<open>The zero value of the struct, and the store before anything is allocated.\<close>

definition zero_node :: "('k, 'v) BasicBST" where
  "zero_node = \<lparr>Key = None, Value = None, Parent = None, Child_lo = None, Child_hi = None,
     Height = 0\<rparr>"

definition empty_store :: "('k, 'v) store" where
  "empty_store = \<lparr>cell = (\<lambda>a. zero_node), fresh = 0\<rparr>"

definition alloc :: "('k, 'v) BasicBST \<Rightarrow> ('k, 'v) store \<Rightarrow> ('k, 'v) store \<times> addr" where
  "alloc nd st = (st\<lparr>cell := (cell st)(fresh st := nd), fresh := Suc (fresh st)\<rparr>, fresh st)"

definition put :: "addr \<Rightarrow> ('k, 'v) BasicBST \<Rightarrow> ('k, 'v) store \<Rightarrow> ('k, 'v) store" where
  "put a nd st = st\<lparr>cell := (cell st)(a := nd)\<rparr>"

text \<open>\<^verbatim>\<open>nd.Child[i]\<close> and \<^verbatim>\<open>nd.Child[i] = c\<close>: an index outside the array panics.\<close>

definition Child :: "('k, 'v) BasicBST \<Rightarrow> int \<Rightarrow> fault + addr option" where
  "Child nd i =
     (if i = lo then Inr (Child_lo nd)
      else if i = hi then Inr (Child_hi nd)
      else Inl IndexOutOfRange)"

definition Child_upd :: "int \<Rightarrow> addr option \<Rightarrow> ('k, 'v) BasicBST \<Rightarrow> fault + ('k, 'v) BasicBST" where
  "Child_upd i c nd =
     (if i = lo then Inr (nd\<lparr>Child_lo := c\<rparr>)
      else if i = hi then Inr (nd\<lparr>Child_hi := c\<rparr>)
      else Inl IndexOutOfRange)"

text \<open>
  \<^verbatim>\<open>KeyType\<close> is an interface whose \<^verbatim>\<open>Less\<close> the caller supplies; the model takes a
  linear order for it. A \<^verbatim>\<open>nil\<close> key on either side panics: calling a method of a
  nil interface does, and so does the type assertion \<^verbatim>\<open>b.(iKey)\<close> of the test's key
  type.
\<close>

definition Less :: "'k::linorder option \<Rightarrow> 'k option \<Rightarrow> fault + bool" where
  "Less a b =
     (case a of
        None \<Rightarrow> Inl NilDereference
      | Some x \<Rightarrow> (case b of None \<Rightarrow> Inl NilDereference | Some y \<Rightarrow> Inr (x < y)))"

section \<open>The operations of \<^verbatim>\<open>BasicBST\<close>\<close>

text \<open>\<^verbatim>\<open>func (n *BasicBST) IsSentinel() bool { return n != nil && n.Parent == n }\<close>\<close>

definition IsSentinel :: "addr option \<Rightarrow> ('k, 'v) store \<Rightarrow> bool" where
  "IsSentinel n st = (case n of None \<Rightarrow> False | Some a \<Rightarrow> Parent (cell st a) = Some a)"

text \<open>\<^verbatim>\<open>NewBasic\<close>: allocate a zero node and point its \<^verbatim>\<open>Parent\<close> at itself.\<close>

definition NewBasic :: "('k, 'v) store \<Rightarrow> ('k, 'v) store \<times> addr" where
  "NewBasic st =
     (case alloc zero_node st of
        (st', s) \<Rightarrow> (put s ((cell st' s)\<lparr>Parent := Some s\<rparr>) st', s))"

text \<open>
  \<^verbatim>\<open>Get\<close> recurses along child pointers, so on a store whose pointers form a cycle it
  does not return; the outer \<open>option\<close> is \<open>None\<close> exactly then. The inner sum is the
  panic or the pointer returned.
\<close>

partial_function (option) Get ::
  "addr option \<Rightarrow> 'k::linorder option \<Rightarrow> ('k, 'v) store \<Rightarrow> (fault + addr option) option"
where
  "Get n k st =
     (case n of
        None \<Rightarrow> Some (Inr None)
      | Some a \<Rightarrow>
          (case (if IsSentinel n st then Inr True else Less k (Key (cell st a))) of
             Inl e \<Rightarrow> Some (Inl e)
           | Inr lt \<Rightarrow>
               if lt then Get (Child_lo (cell st a)) k st
               else
                 (case Less (Key (cell st a)) k of
                    Inl e \<Rightarrow> Some (Inl e)
                  | Inr gt \<Rightarrow>
                      if gt then Get (Child_hi (cell st a)) k st
                      else Some (Inr n))))"

declare Get.simps [code]

text \<open>
  \<^verbatim>\<open>Visit\<close> calls \<open>f\<close> on the nodes in tree order. The callback of the source has
  effects of its own (it sends on a channel), so the model threads a state \<open>'s\<close> through
  the calls; it returns \<open>Inr (Some err, s)\<close> for a non-nil error, which stops the
  traversal, and \<open>Inl\<close> when it panics.
\<close>

partial_function (option) Visit ::
  "addr option \<Rightarrow> (addr \<Rightarrow> 's \<Rightarrow> fault + 'e option \<times> 's) \<Rightarrow> ('k, 'v) store \<Rightarrow> 's
     \<Rightarrow> (fault + 'e option \<times> 's) option"
where
  "Visit n f st s =
     (case n of
        None \<Rightarrow> Some (Inr (None, s))
      | Some a \<Rightarrow>
          if IsSentinel n st then Visit (Child_lo (cell st a)) f st s
          else
            Option.bind
              (if Child_lo (cell st a) \<noteq> None then Visit (Child_lo (cell st a)) f st s
               else Some (Inr (None, s)))
              (\<lambda>r1. case r1 of
                 Inl e \<Rightarrow> Some (Inl e)
               | Inr (Some err, s1) \<Rightarrow> Some (Inr (Some err, s1))
               | Inr (None, s1) \<Rightarrow>
                   (case f a s1 of
                      Inl e \<Rightarrow> Some (Inl e)
                    | Inr (Some err, s2) \<Rightarrow> Some (Inr (Some err, s2))
                    | Inr (None, s2) \<Rightarrow>
                        if Child_hi (cell st a) \<noteq> None
                        then Visit (Child_hi (cell st a)) f st s2
                        else Some (Inr (None, s2)))))"

declare Visit.simps [code]

text \<open>
  \<^verbatim>\<open>Keys\<close> and \<^verbatim>\<open>Check\<close> run \<^verbatim>\<open>Visit\<close> in a goroutine that hands each element to
  the consumer over an unbuffered channel, or gives up when the context is done:
  \<^verbatim>\<open>select { case keys <- n.Key: return nil; case <-ctx.Done(): return ctx.Err() }\<close>.
  The model is sequential. The state of the traversal is the list of elements handed
  over so far, and the context is a function of their number: \<open>ctx i = None\<close> when the
  \<open>i\<close>-th send goes through, \<open>Some err\<close> when the \<^verbatim>\<open>Done\<close> branch is taken instead.
  \<open>Background\<close> is the context that is never done. The result is what the consumer
  receives before the channel is closed; the error \<^verbatim>\<open>Visit\<close> returns is dropped, as in
  the source.
\<close>

datatype ctx_error = Canceled | DeadlineExceeded

definition Background :: "nat \<Rightarrow> ctx_error option" where
  "Background i = None"

definition hand_over ::
  "(nat \<Rightarrow> ctx_error option) \<Rightarrow> 'x \<Rightarrow> 'x list \<Rightarrow> fault + ctx_error option \<times> 'x list"
where
  "hand_over ctx x s =
     (case ctx (length s) of None \<Rightarrow> Inr (None, s @ [x]) | Some err \<Rightarrow> Inr (Some err, s))"

definition received :: "(fault + 'e option \<times> 'x list) option \<Rightarrow> (fault + 'x list) option" where
  "received r = map_option (map_sum id snd) r"

definition Keys ::
  "addr option \<Rightarrow> (nat \<Rightarrow> ctx_error option) \<Rightarrow> ('k, 'v) store \<Rightarrow> (fault + 'k option list) option"
where
  "Keys n ctx st = received (Visit n (\<lambda>a. hand_over ctx (Key (cell st a))) st [])"

text \<open>
  \<^verbatim>\<open>badLo := (n.Child[lo] != nil && !n.Child[lo].Key.Less(n.Key))\<close> and
  \<^verbatim>\<open>badHi := (n.Child[hi] != nil && !n.Key.Less(n.Child[hi].Key))\<close>
\<close>

definition badLo :: "addr \<Rightarrow> ('k::linorder, 'v) store \<Rightarrow> fault + bool" where
  "badLo a st =
     (case Child_lo (cell st a) of
        None \<Rightarrow> Inr False
      | Some c \<Rightarrow> map_sum id Not (Less (Key (cell st c)) (Key (cell st a))))"

definition badHi :: "addr \<Rightarrow> ('k::linorder, 'v) store \<Rightarrow> fault + bool" where
  "badHi a st =
     (case Child_hi (cell st a) of
        None \<Rightarrow> Inr False
      | Some c \<Rightarrow> map_sum id Not (Less (Key (cell st a)) (Key (cell st c))))"

definition Check_visit ::
  "(nat \<Rightarrow> ctx_error option) \<Rightarrow> ('k::linorder, 'v) store \<Rightarrow> addr \<Rightarrow> addr list
     \<Rightarrow> fault + ctx_error option \<times> addr list"
where
  "Check_visit ctx st a s =
     (case badLo a st of
        Inl e \<Rightarrow> Inl e
      | Inr bl \<Rightarrow>
          (case badHi a st of
             Inl e \<Rightarrow> Inl e
           | Inr bh \<Rightarrow> if bl \<or> bh then hand_over ctx a s else Inr (None, s)))"

definition Check ::
  "addr option \<Rightarrow> (nat \<Rightarrow> ctx_error option) \<Rightarrow> ('k::linorder, 'v) store
     \<Rightarrow> (fault + addr list) option"
where
  "Check n ctx st = received (Visit n (Check_visit ctx st) st [])"

text \<open>
  \<^verbatim>\<open>Insert\<close>. \<^verbatim>\<open>&BasicBST{Key: k, Value: v, Parent: n}\<close> is a fresh node whose other
  fields are zero. On a nil receiver \<^verbatim>\<open>IsSentinel\<close> is false and \<^verbatim>\<open>n.Key\<close> panics.
\<close>

definition new_child ::
  "addr \<Rightarrow> int \<Rightarrow> 'k option \<Rightarrow> 'v option \<Rightarrow> ('k, 'v) store \<Rightarrow> fault + ('k, 'v) store"
where
  "new_child a i k v st =
     (case alloc (zero_node\<lparr>Key := k, Value := v, Parent := Some a\<rparr>) st of
        (st', c) \<Rightarrow>
          (case Child_upd i (Some c) (cell st' a) of
             Inl e \<Rightarrow> Inl e
           | Inr nd \<Rightarrow> Inr (put a nd st')))"

partial_function (option) Insert ::
  "addr option \<Rightarrow> 'k::linorder option \<Rightarrow> 'v option \<Rightarrow> ('k, 'v) store
     \<Rightarrow> (fault + ('k, 'v) store) option"
where
  "Insert n k v st =
     (case n of
        None \<Rightarrow> Some (Inl NilDereference)
      | Some a \<Rightarrow>
          (case (if IsSentinel n st then Inr True else Less k (Key (cell st a))) of
             Inl e \<Rightarrow> Some (Inl e)
           | Inr lt \<Rightarrow>
               if lt then
                 (if Child_lo (cell st a) = None then Some (new_child a lo k v st)
                  else Insert (Child_lo (cell st a)) k v st)
               else
                 (case Less (Key (cell st a)) k of
                    Inl e \<Rightarrow> Some (Inl e)
                  | Inr gt \<Rightarrow>
                      if gt then
                        (if Child_hi (cell st a) = None then Some (new_child a hi k v st)
                         else Insert (Child_hi (cell st a)) k v st)
                      else Some (Inr (put a ((cell st a)\<lparr>Value := v\<rparr>) st)))))"

declare Insert.simps [code]

text \<open>
  \<^verbatim>\<open>which\<close>: the side of the parent that holds \<open>n\<close>, by pointer identity, and \<open>-1\<close>
  when neither slot does.
\<close>

definition which :: "addr option \<Rightarrow> ('k, 'v) store \<Rightarrow> fault + int" where
  "which n st =
     (case n of
        None \<Rightarrow> Inl NilDereference
      | Some a \<Rightarrow>
          (case Parent (cell st a) of
             None \<Rightarrow> Inl NilDereference
           | Some p \<Rightarrow>
               if n = Child_lo (cell st p) then Inr lo
               else if n = Child_hi (cell st p) then Inr hi
               else Inr (- 1)))"

text \<open>
  \<^verbatim>\<open>func opposite(d int) int { return (d + 1) % 2 }\<close>. Go's \<^verbatim>\<open>%\<close> truncates towards
  zero. The callers pass \<open>lo\<close> or \<open>hi\<close> only, far from the ends of \<^verbatim>\<open>int\<close>.
\<close>

definition opposite :: "int \<Rightarrow> int" where
  "opposite d = (if 0 \<le> d + 1 then (d + 1) mod 2 else - ((- (d + 1)) mod 2))"

text \<open>The loop \<^verbatim>\<open>for cur.Child[r] != nil { cur = cur.Child[r] }\<close>.\<close>

partial_function (option) descend ::
  "addr \<Rightarrow> int \<Rightarrow> ('k, 'v) store \<Rightarrow> (fault + addr) option"
where
  "descend cur r st =
     (case Child (cell st cur) r of
        Inl e \<Rightarrow> Some (Inl e)
      | Inr None \<Rightarrow> Some (Inr cur)
      | Inr (Some c) \<Rightarrow> descend c r st)"

declare descend.simps [code]

text \<open>The loop \<^verbatim>\<open>for cur.which() == d { cur = cur.Parent }\<close>.\<close>

partial_function (option) ascend ::
  "addr option \<Rightarrow> int \<Rightarrow> ('k, 'v) store \<Rightarrow> (fault + addr option) option"
where
  "ascend cur d st =
     (case which cur st of
        Inl e \<Rightarrow> Some (Inl e)
      | Inr w \<Rightarrow>
          if w = d then
            (case cur of
               None \<Rightarrow> Some (Inl NilDereference)
             | Some a \<Rightarrow> ascend (Parent (cell st a)) d st)
          else Some (Inr cur))"

declare ascend.simps [code]

text \<open>
  \<^verbatim>\<open>func (n *BasicBST) next(d int) *BasicBST\<close>; the name is \<open>next_dir\<close> here because
  \<open>next\<close> is a keyword of the proof language.
\<close>

definition next_dir ::
  "addr option \<Rightarrow> int \<Rightarrow> ('k, 'v) store \<Rightarrow> (fault + addr option) option"
where
  "next_dir n d st =
     (case n of
        None \<Rightarrow> Some (Inl NilDereference)
      | Some a \<Rightarrow>
          (case Child (cell st a) d of
             Inl e \<Rightarrow> Some (Inl e)
           | Inr (Some c) \<Rightarrow> map_option (map_sum id Some) (descend c (opposite d) st)
           | Inr None \<Rightarrow>
               (case ascend n d st of
                  None \<Rightarrow> None
                | Some (Inl e) \<Rightarrow> Some (Inl e)
                | Some (Inr None) \<Rightarrow> Some (Inl NilDereference)
                | Some (Inr (Some cur)) \<Rightarrow>
                    if IsSentinel (Parent (cell st cur)) st then Some (Inr None)
                    else Some (Inr (Parent (cell st cur))))))"

definition Next :: "addr option \<Rightarrow> ('k, 'v) store \<Rightarrow> (fault + addr option) option" where
  "Next n st = next_dir n hi st"

definition Prev :: "addr option \<Rightarrow> ('k, 'v) store \<Rightarrow> (fault + addr option) option" where
  "Prev n st = next_dir n lo st"

text \<open>
  The assignment \<^verbatim>\<open>n.Parent.Child[n.which()] = c\<close> of \<^verbatim>\<open>Delete\<close>: a nil parent panics,
  and so does the index \<open>-1\<close> that \<^verbatim>\<open>which\<close> returns for a node its parent does not
  hold.
\<close>

definition set_parent_slot ::
  "addr \<Rightarrow> addr option \<Rightarrow> ('k, 'v) store \<Rightarrow> fault + ('k, 'v) store"
where
  "set_parent_slot a c st =
     (case Parent (cell st a) of
        None \<Rightarrow> Inl NilDereference
      | Some p \<Rightarrow>
          (case which (Some a) st of
             Inl e \<Rightarrow> Inl e
           | Inr w \<Rightarrow>
               (case Child_upd w c (cell st p) of
                  Inl e \<Rightarrow> Inl e
                | Inr nd \<Rightarrow> Inr (put p nd st))))"

text \<open>\<^verbatim>\<open>Delete\<close>, as the file with the finished body has it.\<close>

partial_function (option) Delete ::
  "addr option \<Rightarrow> ('k, 'v) store \<Rightarrow> (fault + ('k, 'v) store) option"
where
  "Delete n st =
     (if IsSentinel n st then Some (Inr st)
      else
        (case n of
           None \<Rightarrow> Some (Inr st)
         | Some a \<Rightarrow>
             if Child_hi (cell st a) = None
             then Some (set_parent_slot a (Child_lo (cell st a)) st)
             else if Child_lo (cell st a) = None
             then Some (set_parent_slot a (Child_hi (cell st a)) st)
             else
               (case Child_hi (cell st a) of
                  None \<Rightarrow> Some (Inl NilDereference)
                | Some c \<Rightarrow>
                    (case descend c lo st of
                       None \<Rightarrow> None
                     | Some (Inl e) \<Rightarrow> Some (Inl e)
                     | Some (Inr cur) \<Rightarrow>
                         Delete (Some cur)
                           (put a ((cell st a)\<lparr>Key := Key (cell st cur),
                              Value := Value (cell st cur)\<rparr>) st)))))"

declare Delete.simps [code]

text \<open>
  \<^verbatim>\<open>Delete\<close> of \<^verbatim>\<open>basic.go\<close>: the two guards, then \<^verbatim>\<open>default: // TODO\<close>; it changes
  nothing.
\<close>

definition Delete_todo :: "addr option \<Rightarrow> ('k, 'v) store \<Rightarrow> (fault + ('k, 'v) store) option" where
  "Delete_todo n st =
     (if IsSentinel n st then Some (Inr st)
      else (case n of None \<Rightarrow> Some (Inr st) | Some a \<Rightarrow> Some (Inr st)))"

lemma Delete_todo_changes_nothing: "Delete_todo n st = Some (Inr st)"
  by (simp add: Delete_todo_def split: option.splits)

section \<open>Running operations one after another\<close>

text \<open>
  A panic or a call that does not return ends a run: \<open>and_then r f\<close> applies \<open>f\<close> to
  what \<open>r\<close> returned and keeps a fault or a divergence of \<open>r\<close>. \<open>Insert_all\<close> is the loop
  of the tests, \<^verbatim>\<open>for _, p := range kvs { s.Insert(p.k, p.v) }\<close>.
\<close>

definition and_then :: "(fault + 'a) option \<Rightarrow> ('a \<Rightarrow> (fault + 'b) option) \<Rightarrow> (fault + 'b) option" where
  "and_then r f = (case r of None \<Rightarrow> None | Some (Inl e) \<Rightarrow> Some (Inl e) | Some (Inr x) \<Rightarrow> f x)"

fun Insert_all ::
  "addr option \<Rightarrow> ('k::linorder \<times> 'v) list \<Rightarrow> ('k, 'v) store \<Rightarrow> (fault + ('k, 'v) store) option"
where
  "Insert_all n [] st = Some (Inr st)"
| "Insert_all n ((k, v) # kvs) st = and_then (Insert n (Some k) (Some v) st) (Insert_all n kvs)"

text \<open>
  Reading a field through a pointer (\<^verbatim>\<open>n.Value\<close>), which panics on \<^verbatim>\<open>nil\<close>; whether a
  run returned; and the panic of a run, if it ended in one.
\<close>

definition read ::
  "(('k, 'v) BasicBST \<Rightarrow> 'a) \<Rightarrow> addr option \<Rightarrow> ('k, 'v) store \<Rightarrow> (fault + 'a) option"
where
  "read field n st =
     (case n of None \<Rightarrow> Some (Inl NilDereference) | Some a \<Rightarrow> Some (Inr (field (cell st a))))"



text \<open>
  The tree of the tests: \<^verbatim>\<open>s := NewBasic()\<close> on an empty store, keys of the test's type
  \<^verbatim>\<open>iKey\<close> (an \<^verbatim>\<open>int\<close>), each key \<open>k\<close> inserted with the value \<open>- k\<close>.
  \<open>Delete_key\<close> is \<^verbatim>\<open>d := s.Get(iKey(k)); d.Delete()\<close>, \<open>Delete_todo_key\<close> is the same
  with the \<^verbatim>\<open>Delete\<close> of \<^verbatim>\<open>basic.go\<close>, and \<open>Value_of_key\<close> is \<^verbatim>\<open>s.Get(iKey(k)).Value\<close>.
\<close>

definition fresh_tree :: "(int, int) store \<times> addr" where
  "fresh_tree = NewBasic empty_store"

definition tree_of_keys :: "int list \<Rightarrow> (fault + (int, int) store) option" where
  "tree_of_keys ks =
     Insert_all (Some (snd fresh_tree)) (map (\<lambda>k. (k, - k)) ks) (fst fresh_tree)"

definition Delete_key :: "int \<Rightarrow> (int, int) store \<Rightarrow> (fault + (int, int) store) option" where
  "Delete_key k st = and_then (Get (Some (snd fresh_tree)) (Some k) st) (\<lambda>d. Delete d st)"

definition Delete_todo_key :: "int \<Rightarrow> (int, int) store \<Rightarrow> (fault + (int, int) store) option" where
  "Delete_todo_key k st =
     and_then (Get (Some (snd fresh_tree)) (Some k) st) (\<lambda>d. Delete_todo d st)"

definition Value_of_key :: "int \<Rightarrow> (int, int) store \<Rightarrow> (fault + int option) option" where
  "Value_of_key k st =
     and_then (Get (Some (snd fresh_tree)) (Some k) st) (\<lambda>n. read Value n st)"

text \<open>
  Two stores for concrete runs: the tree of the keys 2, 1, 3 (the sentinel is at address 0,
  the nodes of 2, 1 and 3 at 1, 2 and 3), and the same store after the key of the root is
  overwritten with 5, which puts the root out of order with its \<open>Hi\<close> child.
\<close>

definition three_keys :: "(int, int) store" where
  "three_keys = (case tree_of_keys [2, 1, 3] of Some (Inr st) \<Rightarrow> st | _ \<Rightarrow> fst fresh_tree)"

definition disordered :: "(int, int) store" where
  "disordered = put 1 ((cell three_keys 1)\<lparr>Key := Some 5\<rparr>) three_keys"

section \<open>The tree a store holds\<close>

text \<open>
  The proofs relate the pointer structure to a tree value: \<open>rep st p q t\<close> says that the
  pointer \<open>q\<close>, found in a slot of the node at \<open>p\<close>, is the root of a subtree of shape
  \<open>t\<close>, each of whose nodes carries its address, key and value and points back at its
  parent. \<open>tree_of st s t\<close> is a whole tree under the sentinel \<open>s\<close>: no address occurs
  twice, and all of them have been allocated.
\<close>

datatype ('k, 'v) tree = Leaf | Node "('k, 'v) tree" addr 'k "'v option" "('k, 'v) tree"

fun addrs :: "('k, 'v) tree \<Rightarrow> addr list" where
  "addrs Leaf = []"
| "addrs (Node l a k v r) = addrs l @ a # addrs r"

fun keys :: "('k, 'v) tree \<Rightarrow> 'k list" where
  "keys Leaf = []"
| "keys (Node l a k v r) = keys l @ k # keys r"

fun rep :: "('k, 'v) store \<Rightarrow> addr \<Rightarrow> addr option \<Rightarrow> ('k, 'v) tree \<Rightarrow> bool" where
  "rep st p q Leaf = (q = None)"
| "rep st p q (Node l a k v r) =
     (q = Some a \<and> Key (cell st a) = Some k \<and> Value (cell st a) = v \<and>
      Parent (cell st a) = Some p \<and>
      rep st a (Child_lo (cell st a)) l \<and> rep st a (Child_hi (cell st a)) r)"

fun locate :: "('k::linorder, 'v) tree \<Rightarrow> 'k \<Rightarrow> addr option" where
  "locate Leaf x = None"
| "locate (Node l a k v r) x = (if x < k then locate l x else if k < x then locate r x else Some a)"

text \<open>
  \<open>rep\<close> reads only the nodes of the tree, so it survives any change of the store
  elsewhere. \<^verbatim>\<open>Get\<close> follows the same comparisons as \<open>locate\<close>.
\<close>

lemma rep_frame:
  "rep st p q t \<Longrightarrow> (\<And>a. a \<in> set (addrs t) \<Longrightarrow> cell st' a = cell st a) \<Longrightarrow> rep st' p q t"
  by (induction t arbitrary: p q) auto

lemma Get_rep:
  "rep st p q t \<Longrightarrow> p \<notin> set (addrs t) \<Longrightarrow> distinct (addrs t) \<Longrightarrow>
     Get q (Some x) st = Some (Inr (locate t x))"
proof (induction t arbitrary: p q)
  case Leaf
  then show ?case by (simp add: Get.simps)
next
  case (Node l a k v r)
  from Node.prems have q: "q = Some a" and par: "Parent (cell st a) = Some p" and pa: "p \<noteq> a"
    and key: "Key (cell st a) = Some k"
    and l: "rep st a (Child_lo (cell st a)) l" and r: "rep st a (Child_hi (cell st a)) r"
    and al: "a \<notin> set (addrs l)" and ar: "a \<notin> set (addrs r)"
    and dl: "distinct (addrs l)" and dr: "distinct (addrs r)"
    by auto
  have ns: "\<not> IsSentinel (Some a) st" using par pa by (simp add: IsSentinel_def)
  show ?case
    using Node.IH(1)[OF l al dl, of ] Node.IH(2)[OF r ar dr] ns key q
    by (subst Get.simps) (simp add: Less_def)
qed


subsection \<open>Insert\<close>

text \<open>
  \<open>ins x y n t\<close> is the tree after \<^verbatim>\<open>Insert(x, y)\<close> when the next free address is \<open>n\<close>:
  a new leaf at \<open>n\<close> where the search for \<open>x\<close> ends in an empty slot, or the value
  overwritten where it ends at a node. \<open>Insert_rep\<close> is the step for a subtree: it names
  the store that \<^verbatim>\<open>Insert\<close> returns, and says that nothing outside the subtree and the new
  address has changed.
\<close>

fun ins :: "'k::linorder \<Rightarrow> 'v option \<Rightarrow> addr \<Rightarrow> ('k, 'v) tree \<Rightarrow> ('k, 'v) tree" where
  "ins x y n Leaf = Node Leaf n x y Leaf"
| "ins x y n (Node l a k v r) =
     (if x < k then Node (ins x y n l) a k v r
      else if k < x then Node l a k v (ins x y n r)
      else Node l a k y r)"

lemma set_addrs_ins: "set (addrs (ins x y n t)) \<subseteq> insert n (set (addrs t))"
  by (induction t) auto

lemma distinct_addrs_ins: "distinct (addrs t) \<Longrightarrow> n \<notin> set (addrs t) \<Longrightarrow> distinct (addrs (ins x y n t))"
proof (induction t)
  case Leaf
  then show ?case by simp
next
  case (Node l a k v r)
  then show ?case using set_addrs_ins[of x y n l] set_addrs_ins[of x y n r] by auto
qed

lemma new_child_lo:
  "a \<noteq> fresh st \<Longrightarrow> new_child a lo k v st =
     Inr \<lparr>cell = (cell st)(fresh st := zero_node\<lparr>Key := k, Value := v, Parent := Some a\<rparr>,
                           a := (cell st a)\<lparr>Child_lo := Some (fresh st)\<rparr>),
          fresh = Suc (fresh st)\<rparr>"
  by (simp add: new_child_def alloc_def put_def Child_upd_def)

lemma new_child_hi:
  "a \<noteq> fresh st \<Longrightarrow> new_child a hi k v st =
     Inr \<lparr>cell = (cell st)(fresh st := zero_node\<lparr>Key := k, Value := v, Parent := Some a\<rparr>,
                           a := (cell st a)\<lparr>Child_hi := Some (fresh st)\<rparr>),
          fresh = Suc (fresh st)\<rparr>"
  by (simp add: new_child_def alloc_def put_def Child_upd_def lo_def hi_def)

lemma Insert_rep:
  "rep st p q t \<Longrightarrow> t \<noteq> Leaf \<Longrightarrow> p \<notin> set (addrs t) \<Longrightarrow> distinct (addrs t) \<Longrightarrow>
   (\<And>a. a \<in> set (addrs t) \<Longrightarrow> a < fresh st) \<Longrightarrow>
   \<exists>st'. Insert q (Some x) y st = Some (Inr st') \<and> rep st' p q (ins x y (fresh st) t) \<and>
     (\<forall>a. a \<notin> set (addrs t) \<longrightarrow> a \<noteq> fresh st \<longrightarrow> cell st' a = cell st a) \<and>
     fresh st \<le> fresh st' \<and> (\<forall>a\<in>set (addrs (ins x y (fresh st) t)). a < fresh st')"
proof (induction t arbitrary: p q)
  case Leaf
  then show ?case by simp
next
  case (Node l a k v r)
  from Node.prems have q: "q = Some a" and par: "Parent (cell st a) = Some p" and pa: "p \<noteq> a"
    and key: "Key (cell st a) = Some k" and val: "Value (cell st a) = v"
    and l: "rep st a (Child_lo (cell st a)) l" and r: "rep st a (Child_hi (cell st a)) r"
    and al: "a \<notin> set (addrs l)" and ar: "a \<notin> set (addrs r)"
    and dl: "distinct (addrs l)" and dr: "distinct (addrs r)"
    and lr: "set (addrs l) \<inter> set (addrs r) = {}"
    and at: "a < fresh st"
    and ltop: "\<And>b. b \<in> set (addrs l) \<Longrightarrow> b < fresh st"
    and rtop: "\<And>b. b \<in> set (addrs r) \<Longrightarrow> b < fresh st"
    by auto
  have ns: "\<not> IsSentinel (Some a) st" using par pa by (simp add: IsSentinel_def)
  have unf: "Insert (Some a) (Some x) y st =
      (if x < k then
         (if Child_lo (cell st a) = None then Some (new_child a lo (Some x) y st)
          else Insert (Child_lo (cell st a)) (Some x) y st)
       else if k < x then
         (if Child_hi (cell st a) = None then Some (new_child a hi (Some x) y st)
          else Insert (Child_hi (cell st a)) (Some x) y st)
       else Some (Inr (put a ((cell st a)\<lparr>Value := y\<rparr>) st)))"
    using ns key by (subst Insert.simps) (simp add: Less_def)
  consider (lt) "x < k" | (gt) "k < x" | (eq) "\<not> x < k" "\<not> k < x" by blast
  then show ?case
  proof cases
    case lt
    show ?thesis
    proof (cases l)
      case Leaf
      let ?st' = "\<lparr>cell = (cell st)(fresh st := zero_node\<lparr>Key := Some x, Value := y, Parent := Some a\<rparr>,
                           a := (cell st a)\<lparr>Child_lo := Some (fresh st)\<rparr>),
          fresh = Suc (fresh st)\<rparr>"
      have i: "Insert q (Some x) y st = Some (Inr ?st')"
        using unf lt l Leaf q at by (simp add: new_child_lo)
      have "rep ?st' a (Child_hi (cell st a)) r"
        using r ar rtop by (intro rep_frame[OF r]) auto
      then have "rep ?st' p q (ins x y (fresh st) (Node l a k v r))"
        using lt Leaf q key val par at by (simp add: zero_node_def)
      moreover have "\<forall>b\<in>set (addrs (ins x y (fresh st) (Node l a k v r))). b < fresh ?st'"
        using lt Leaf at rtop by (auto simp: less_Suc_eq)
      ultimately show ?thesis using i by auto
    next
      case (Node l1 a1 k1 v1 r1)
      then have lne: "l \<noteq> Leaf" by simp
      from Node.IH(1)[OF l lne al dl ltop] obtain st' where
        i: "Insert (Child_lo (cell st a)) (Some x) y st = Some (Inr st')"
        and rl: "rep st' a (Child_lo (cell st a)) (ins x y (fresh st) l)"
        and fr: "\<And>b. b \<notin> set (addrs l) \<Longrightarrow> b \<noteq> fresh st \<Longrightarrow> cell st' b = cell st b"
        and tp: "fresh st \<le> fresh st'"
        and bd: "\<forall>b\<in>set (addrs (ins x y (fresh st) l)). b < fresh st'"
        by blast
      have ca: "cell st' a = cell st a" using fr al at by simp
      have cl: "Child_lo (cell st a) \<noteq> None" using l Node by auto
      have "rep st' a (Child_hi (cell st a)) r"
        using lr rtop by (intro rep_frame[OF r]) (auto intro!: fr)
      then have "rep st' p q (ins x y (fresh st) (Node l a k v r))"
        using lt q key val par ca rl by simp
      moreover have "\<forall>b\<in>set (addrs (ins x y (fresh st) (Node l a k v r))). b < fresh st'"
        using lt bd at tp by (auto dest!: rtop)
      moreover have "Insert q (Some x) y st = Some (Inr st')"
        using unf lt cl i q by simp
      ultimately show ?thesis using fr tp by auto
    qed
  next
    case gt
    then have nlt: "\<not> x < k" by simp
    show ?thesis
    proof (cases r)
      case Leaf
      let ?st' = "\<lparr>cell = (cell st)(fresh st := zero_node\<lparr>Key := Some x, Value := y, Parent := Some a\<rparr>,
                           a := (cell st a)\<lparr>Child_hi := Some (fresh st)\<rparr>),
          fresh = Suc (fresh st)\<rparr>"
      have i: "Insert q (Some x) y st = Some (Inr ?st')"
        using unf gt nlt r Leaf q at by (simp add: new_child_hi)
      have "rep ?st' a (Child_lo (cell st a)) l"
        using al ltop by (intro rep_frame[OF l]) auto
      then have "rep ?st' p q (ins x y (fresh st) (Node l a k v r))"
        using gt nlt Leaf q key val par at by (simp add: zero_node_def)
      moreover have "\<forall>b\<in>set (addrs (ins x y (fresh st) (Node l a k v r))). b < fresh ?st'"
        using gt nlt Leaf at ltop by (auto simp: less_Suc_eq)
      ultimately show ?thesis using i by auto
    next
      case (Node l1 a1 k1 v1 r1)
      then have rne: "r \<noteq> Leaf" by simp
      from Node.IH(2)[OF r rne ar dr rtop] obtain st' where
        i: "Insert (Child_hi (cell st a)) (Some x) y st = Some (Inr st')"
        and rr: "rep st' a (Child_hi (cell st a)) (ins x y (fresh st) r)"
        and fr: "\<And>b. b \<notin> set (addrs r) \<Longrightarrow> b \<noteq> fresh st \<Longrightarrow> cell st' b = cell st b"
        and tp: "fresh st \<le> fresh st'"
        and bd: "\<forall>b\<in>set (addrs (ins x y (fresh st) r)). b < fresh st'"
        by blast
      have ca: "cell st' a = cell st a" using fr ar at by simp
      have cr: "Child_hi (cell st a) \<noteq> None" using r Node by auto
      have "rep st' a (Child_lo (cell st a)) l"
        using lr ltop by (intro rep_frame[OF l]) (auto intro!: fr)
      then have "rep st' p q (ins x y (fresh st) (Node l a k v r))"
        using gt nlt q key val par ca rr by simp
      moreover have "\<forall>b\<in>set (addrs (ins x y (fresh st) (Node l a k v r))). b < fresh st'"
        using gt nlt bd at tp by (auto dest!: ltop)
      moreover have "Insert q (Some x) y st = Some (Inr st')"
        using unf gt nlt cr i q by simp
      ultimately show ?thesis using fr tp by auto
    qed
  next
    case eq
    let ?st' = "put a ((cell st a)\<lparr>Value := y\<rparr>) st"
    have i: "Insert q (Some x) y st = Some (Inr ?st')" using unf eq q by simp
    have "rep ?st' a (Child_lo (cell st a)) l"
      using al by (intro rep_frame[OF l]) (auto simp: put_def)
    moreover have "rep ?st' a (Child_hi (cell st a)) r"
      using ar by (intro rep_frame[OF r]) (auto simp: put_def)
    ultimately have "rep ?st' p q (ins x y (fresh st) (Node l a k v r))"
      using eq q key par by (simp add: put_def)
    moreover have "\<forall>b\<in>set (addrs (ins x y (fresh st) (Node l a k v r))). b < fresh ?st'"
      using eq at ltop rtop by (auto simp: put_def)
    ultimately show ?thesis using i by (auto simp: put_def)
  qed
qed


definition tree_of :: "('k, 'v) store \<Rightarrow> addr \<Rightarrow> ('k, 'v) tree \<Rightarrow> bool" where
  "tree_of st s t =
     (Parent (cell st s) = Some s \<and> Key (cell st s) = None \<and>
      Child_hi (cell st s) = None \<and> rep st s (Child_lo (cell st s)) t \<and> distinct (addrs t) \<and>
      s \<notin> set (addrs t) \<and> s < fresh st \<and> (\<forall>a\<in>set (addrs t). a < fresh st))"

lemma tree_of_NewBasic: "NewBasic st0 = (st, s) \<Longrightarrow> tree_of st s Leaf"
  by (auto simp: NewBasic_def alloc_def put_def zero_node_def tree_of_def)

lemma Insert_tree_of:
  assumes "tree_of st s t"
  shows "\<exists>st'. Insert (Some s) (Some x) y st = Some (Inr st') \<and> tree_of st' s (ins x y (fresh st) t)"
proof -
  from assms have par: "Parent (cell st s) = Some s" and rp: "rep st s (Child_lo (cell st s)) t"
    and d: "distinct (addrs t)" and sn: "s \<notin> set (addrs t)" and sf: "s < fresh st"
    and bd: "\<And>a. a \<in> set (addrs t) \<Longrightarrow> a < fresh st"
    and sk: "Key (cell st s) = None" and sh: "Child_hi (cell st s) = None"
    by (auto simp: tree_of_def)
  have sen: "IsSentinel (Some s) st" using par by (simp add: IsSentinel_def)
  have unf: "Insert (Some s) (Some x) y st =
      (if Child_lo (cell st s) = None then Some (new_child s lo (Some x) y st)
       else Insert (Child_lo (cell st s)) (Some x) y st)"
    using sen by (subst Insert.simps) simp
  show ?thesis
  proof (cases t)
    case Leaf
    then have "Child_lo (cell st s) = None" using rp by simp
    then show ?thesis using unf Leaf sf par sk sh
      by (simp add: new_child_lo tree_of_def zero_node_def)
  next
    case (Node l a k v r)
    then have ne: "t \<noteq> Leaf" and cl: "Child_lo (cell st s) \<noteq> None" using rp by auto
    from Insert_rep[OF rp ne sn d bd, of x y] obtain st' where
      i: "Insert (Child_lo (cell st s)) (Some x) y st = Some (Inr st')"
      and r': "rep st' s (Child_lo (cell st s)) (ins x y (fresh st) t)"
      and fr: "\<And>b. b \<notin> set (addrs t) \<Longrightarrow> b \<noteq> fresh st \<Longrightarrow> cell st' b = cell st b"
      and tp: "fresh st \<le> fresh st'"
      and bd': "\<forall>b\<in>set (addrs (ins x y (fresh st) t)). b < fresh st'"
      by blast
    have cs: "cell st' s = cell st s" using fr sn sf by simp
    have fn: "fresh st \<notin> set (addrs t)" using bd by auto
    have "s \<notin> set (addrs (ins x y (fresh st) t))"
      using set_addrs_ins[of x y "fresh st" t] sn sf by auto
    then have "tree_of st' s (ins x y (fresh st) t)"
      using cs par sk sh r' distinct_addrs_ins[OF d fn] sf tp bd' by (simp add: tree_of_def)
    then show ?thesis using unf cl i by auto
  qed
qed


subsection \<open>Search-tree order\<close>

text \<open>
  \<open>held t x\<close> is the value found by the search for \<open>x\<close>. \<open>bst\<close> is the order invariant;
  insertion keeps it, and under it the keys in tree order are strictly increasing.
\<close>

fun held :: "('k::linorder, 'v) tree \<Rightarrow> 'k \<Rightarrow> 'v option option" where
  "held Leaf x = None"
| "held (Node l a k v r) x = (if x < k then held l x else if k < x then held r x else Some v)"

fun bst :: "('k::linorder, 'v) tree \<Rightarrow> bool" where
  "bst Leaf = True"
| "bst (Node l a k v r) =
     (bst l \<and> bst r \<and> (\<forall>x\<in>set (keys l). x < k) \<and> (\<forall>x\<in>set (keys r). k < x))"

lemma set_keys_ins: "set (keys (ins x y n t)) = insert x (set (keys t))"
  by (induction t) auto

lemma bst_ins: "bst t \<Longrightarrow> bst (ins x y n t)"
  by (induction t) (auto simp: set_keys_ins)

lemma held_ins: "held (ins x y n t) x' = (if x' = x then Some y else held t x')"
  by (induction t) auto

lemma sorted_keys: "bst t \<Longrightarrow> sorted_wrt (<) (keys t)"
  by (induction t) (fastforce simp: sorted_wrt_append)+

lemma length_addrs_keys: "length (addrs t) = length (keys t)"
  by (induction t) auto

lemma locate_None_iff: "locate t x = None \<longleftrightarrow> held t x = None"
  by (induction t) auto


lemma rep_locate:
  "rep st p q t \<Longrightarrow> distinct (addrs t) \<Longrightarrow> locate t x = Some a \<Longrightarrow>
     Key (cell st a) = Some x \<and> held t x = Some (Value (cell st a))"
  by (induction t arbitrary: p q) (auto split: if_splits)

lemma locate_zip:
  "bst t \<Longrightarrow> (a, k) \<in> set (zip (addrs t) (keys t)) \<Longrightarrow> locate t k = Some a"
proof (induction t)
  case Leaf
  then show ?case by simp
next
  case (Node l b k' v r)
  then show ?case
    by (auto simp: length_addrs_keys dest: set_zip_rightD)
qed

lemma Insert_all_tree_of:
  "tree_of st s t \<Longrightarrow> bst t \<Longrightarrow>
   \<exists>st' t'. Insert_all (Some s) kvs st = Some (Inr st') \<and> tree_of st' s t' \<and> bst t' \<and>
     set (keys t') = set (keys t) \<union> fst ` set kvs \<and>
     (\<forall>x. held t' x = (case map_of (rev kvs) x of Some v \<Rightarrow> Some (Some v) | None \<Rightarrow> held t x))"
proof (induction kvs arbitrary: st t)
  case Nil
  then show ?case by auto
next
  case (Cons kv kvs)
  obtain k v where kv: "kv = (k, v)" by (cases kv)
  from Insert_tree_of[OF Cons.prems(1), of k "Some v"] obtain st1 where
    i: "Insert (Some s) (Some k) (Some v) st = Some (Inr st1)"
    and t1: "tree_of st1 s (ins k (Some v) (fresh st) t)" by blast
  have b1: "bst (ins k (Some v) (fresh st) t)" using Cons.prems(2) by (rule bst_ins)
  from Cons.IH[OF t1 b1] obtain st' t' where
    a: "Insert_all (Some s) kvs st1 = Some (Inr st')" and to: "tree_of st' s t'" and b: "bst t'"
    and ks: "set (keys t') = set (keys (ins k (Some v) (fresh st) t)) \<union> fst ` set kvs"
    and h: "\<And>x. held t' x = (case map_of (rev kvs) x of Some v \<Rightarrow> Some (Some v)
          | None \<Rightarrow> held (ins k (Some v) (fresh st) t) x)"
    by blast
  have "Insert_all (Some s) (kv # kvs) st = Some (Inr st')"
    using i a kv by (simp add: and_then_def)
  moreover have "set (keys t') = set (keys t) \<union> fst ` set (kv # kvs)"
    using ks kv by (auto simp: set_keys_ins)
  moreover have "\<forall>x. held t' x = (case map_of (rev (kv # kvs)) x of Some v \<Rightarrow> Some (Some v) | None \<Rightarrow> held t x)"
    using h kv by (auto simp: held_ins map_add_def split: option.splits)
  ultimately show ?case using to b by blast
qed


subsection \<open>Visit\<close>

text \<open>
  \<open>run_list f ns s\<close> calls \<open>f\<close> on the nodes \<open>ns\<close> in turn and stops at the first error or
  panic. On a tree, \<^verbatim>\<open>Visit\<close> is \<open>run_list\<close> on the addresses in tree order.
\<close>

fun run_list :: "(addr \<Rightarrow> 's \<Rightarrow> fault + 'e option \<times> 's) \<Rightarrow> addr list \<Rightarrow> 's \<Rightarrow> fault + 'e option \<times> 's" where
  "run_list f [] s = Inr (None, s)"
| "run_list f (a # as) s =
     (case f a s of
        Inl e \<Rightarrow> Inl e
      | Inr (Some err, s') \<Rightarrow> Inr (Some err, s')
      | Inr (None, s') \<Rightarrow> run_list f as s')"

lemma run_list_append:
  "run_list f (xs @ ys) s =
     (case run_list f xs s of
        Inl e \<Rightarrow> Inl e
      | Inr (Some err, s') \<Rightarrow> Inr (Some err, s')
      | Inr (None, s') \<Rightarrow> run_list f ys s')"
  by (induction xs arbitrary: s) (auto split: sum.splits option.splits)

lemma Visit_rep:
  "rep st p q t \<Longrightarrow> p \<notin> set (addrs t) \<Longrightarrow> distinct (addrs t) \<Longrightarrow>
     Visit q f st s = Some (run_list f (addrs t) s)"
proof (induction t arbitrary: p q s)
  case Leaf
  then show ?case by (simp add: Visit.simps)
next
  case (Node l a k v r)
  from Node.prems have q: "q = Some a" and par: "Parent (cell st a) = Some p" and pa: "p \<noteq> a"
    and l: "rep st a (Child_lo (cell st a)) l" and r: "rep st a (Child_hi (cell st a)) r"
    and al: "a \<notin> set (addrs l)" and ar: "a \<notin> set (addrs r)"
    and dl: "distinct (addrs l)" and dr: "distinct (addrs r)"
    by auto
  have ns: "\<not> IsSentinel (Some a) st" using par pa by (simp add: IsSentinel_def)
  have vl: "(if Child_lo (cell st a) \<noteq> None then Visit (Child_lo (cell st a)) f st s
             else Some (Inr (None, s))) = Some (run_list f (addrs l) s)"
    using Node.IH(1)[OF l al dl, of s] l by (cases l) auto
  have vr: "\<And>s2. (if Child_hi (cell st a) \<noteq> None then Visit (Child_hi (cell st a)) f st s2
             else Some (Inr (None, s2))) = Some (run_list f (addrs r) s2)"
    using Node.IH(2)[OF r ar dr] r by (cases r) auto
  show ?case
    unfolding q
    apply (subst Visit.simps)
    apply (simp only: option.case ns if_False vl vr bind.simps)
    apply (simp add: run_list_append split: sum.splits option.splits prod.splits)
    done
qed





text \<open>
  \<open>Nodes n st\<close> is the list of nodes that \<^verbatim>\<open>Visit\<close> calls its callback on, collected
  by a callback that never fails. On any store on which this traversal returns, every
  other traversal from \<open>n\<close> is \<open>run_list\<close> on that list (\<open>Visit_collect\<close>, by induction
  on the computation).
\<close>

definition Nodes :: "addr option \<Rightarrow> ('k, 'v) store \<Rightarrow> (fault + addr list) option" where
  "Nodes n st = received (Visit n (\<lambda>a. hand_over Background a) st [])"

lemma hand_over_Background: "hand_over Background x s = Inr (None, s @ [x])"
  by (simp add: hand_over_def Background_def)

lemma Visit_collect:
  "Visit n f st s = Some y \<Longrightarrow> f = (\<lambda>a. hand_over Background a) \<Longrightarrow>
     \<exists>ns. y = Inr (None, s @ ns) \<and>
       (\<forall>(g :: addr \<Rightarrow> 't \<Rightarrow> fault + 'u option \<times> 't) s'.
          Visit n g st s' = Some (run_list g ns s')) \<and>
       (\<forall>a\<in>set ns. \<not> IsSentinel (Some a) st)"
proof (induction n f st s y rule: Visit.raw_induct[rotated 1, consumes 1, case_names step])
  case (step V n f st s y)
  note IH = step.IH and eq = step.hyps and f = step.prems
  let ?G = "\<lambda>q ns. \<forall>(g :: addr \<Rightarrow> 't \<Rightarrow> fault + 'u option \<times> 't) s'.
      Visit q g st s' = Some (run_list g ns s')"
  let ?N = "\<lambda>ns. \<forall>a\<in>set ns. \<not> IsSentinel (Some a) st"
  have G_None: "?G None []"
    by (subst Visit.simps) simp
  show ?case
  proof (cases n)
    case None
    have "y = Inr (None, s @ [])" using eq None by simp
    then show ?thesis using G_None None by (intro exI[of _ "[]"]) simp
  next
    case (Some a)
    show ?thesis
    proof (cases "IsSentinel (Some a) st")
      case True
      have "V (Child_lo (cell st a)) f st s = Some y"
        using eq unfolding Some by (simp add: True)
      from IH[OF this f] obtain ns where
        y: "y = Inr (None, s @ ns)" and g: "?G (Child_lo (cell st a)) ns" and n: "?N ns"
        by (elim exE conjE)
      have "?G n ns"
        unfolding Some by (subst Visit.simps) (simp add: True g)
      then show ?thesis using y n by (intro exI[of _ ns]) simp
    next
      case False
      have sub: "\<exists>ns. r = Inr (None, s0 @ ns) \<and> ?G q ns \<and> ?N ns"
        if "(if q \<noteq> None then V q f st s0 else Some (Inr (None, s0))) = Some r" for q s0 r
      proof (cases "q = None")
        case True
        then have "r = Inr (None, s0 @ [])" using that by simp
        then show ?thesis using G_None True by (intro exI[of _ "[]"]) simp
      next
        case False
        then have "V q f st s0 = Some r" using that by simp
        from IH[OF this f] show ?thesis .
      qed
      from eq obtain r1 where
        r1: "(if Child_lo (cell st a) \<noteq> None then V (Child_lo (cell st a)) f st s
               else Some (Inr (None, s))) = Some r1"
        unfolding Some by (simp add: False bind_eq_Some_conv) (elim exE conjE)
      from sub[OF r1] obtain ns1 where r1': "r1 = Inr (None, s @ ns1)"
        and g1: "?G (Child_lo (cell st a)) ns1" and n1: "?N ns1"
        by (elim exE conjE)
      have hy: "(if Child_hi (cell st a) \<noteq> None
              then V (Child_hi (cell st a)) f st ((s @ ns1) @ [a])
              else Some (Inr (None, (s @ ns1) @ [a]))) = Some y"
        using eq r1 unfolding Some r1' f
        by (simp add: False hand_over_Background)
      from sub[OF hy] obtain ns2 where y: "y = Inr (None, ((s @ ns1) @ [a]) @ ns2)"
        and g2: "?G (Child_hi (cell st a)) ns2" and n2: "?N ns2"
        by (elim exE conjE)
      have lo_eq: "(if Child_lo (cell st a) \<noteq> None then Visit (Child_lo (cell st a)) g st s'
               else Some (Inr (None, s'))) = Some (run_list g ns1 s')"
        for g :: "addr \<Rightarrow> 't \<Rightarrow> fault + 'u option \<times> 't" and s'
      proof (cases "Child_lo (cell st a)")
        case None
        then show ?thesis using g1 G_None by simp
      next
        case (Some c)
        then show ?thesis using g1 by simp
      qed
      have hi_eq: "(if Child_hi (cell st a) \<noteq> None then Visit (Child_hi (cell st a)) g st s'
               else Some (Inr (None, s'))) = Some (run_list g ns2 s')"
        for g :: "addr \<Rightarrow> 't \<Rightarrow> fault + 'u option \<times> 't" and s'
      proof (cases "Child_hi (cell st a)")
        case None
        then show ?thesis using g2 G_None by simp
      next
        case (Some c)
        then show ?thesis using g2 by simp
      qed
      have "Visit (Some a) g st s' = Some (run_list g (ns1 @ a # ns2) s')"
        for g :: "addr \<Rightarrow> 't \<Rightarrow> fault + 'u option \<times> 't" and s'
        apply (subst Visit.simps)
        apply (simp only: option.case False if_False lo_eq hi_eq bind.simps)
        apply (simp add: run_list_append split: sum.splits option.splits prod.splits)
        done
      then have "?G n (ns1 @ a # ns2)" unfolding Some by blast
      moreover have "?N (ns1 @ a # ns2)" using n1 n2 False by auto
      moreover have "y = Inr (None, s @ ns1 @ a # ns2)" using y by simp
      ultimately show ?thesis by (intro exI[of _ "ns1 @ a # ns2"]) simp
    qed
  qed
qed

subsection \<open>Next: descending and climbing\<close>

text \<open>
  In a tree whose addresses in order are \<open>addrs t\<close>, the loop that descends from the
  \<open>Hi\<close> child of the \<open>i\<close>-th node ends at node \<open>i + 1\<close> (\<open>hi_child_rep\<close>). The loop that
  climbs from a node without a \<open>Hi\<close> child ends at a \<open>Lo\<close> child whose parent is node
  \<open>i + 1\<close>; from the last node of a subtree it goes on as from the root of the subtree
  (\<open>ascend_rep\<close>).
\<close>

lemma which_lo:
  "Parent (cell st c) = Some a \<Longrightarrow> Child_lo (cell st a) = Some c \<Longrightarrow> which (Some c) st = Inr lo"
  by (simp add: which_def)

lemma which_hi:
  "Parent (cell st c) = Some a \<Longrightarrow> Child_lo (cell st a) \<noteq> Some c \<Longrightarrow>
     Child_hi (cell st a) = Some c \<Longrightarrow> which (Some c) st = Inr hi"
  by (simp add: which_def)

lemma ascend_stop: "which (Some c) st = Inr w \<Longrightarrow> w \<noteq> d \<Longrightarrow> ascend (Some c) d st = Some (Inr (Some c))"
  by (subst ascend.simps) simp

lemma ascend_step: "which (Some c) st = Inr d \<Longrightarrow> ascend (Some c) d st = ascend (Parent (cell st c)) d st"
  by (subst ascend.simps) simp

lemma rep_Some:
  "rep st p (Some c) t \<Longrightarrow> \<exists>l k v r. t = Node l c k v r"
  by (cases t) auto

lemma rep_nonempty:
  "rep st p q t \<Longrightarrow> t \<noteq> Leaf \<Longrightarrow> \<exists>c. q = Some c \<and> c \<in> set (addrs t) \<and> Parent (cell st c) = Some p"
  by (cases t) auto

lemma descend_rep:
  "rep st p q t \<Longrightarrow> t \<noteq> Leaf \<Longrightarrow> q = Some c \<Longrightarrow> descend c lo st = Some (Inr (hd (addrs t)))"
proof (induction t arbitrary: p q c)
  case Leaf
  then show ?case by simp
next
  case (Node l a k v r)
  then have c: "c = a" and rl: "rep st a (Child_lo (cell st a)) l" by auto
  show ?case
  proof (cases l)
    case Leaf
    then have "Child_lo (cell st a) = None" using rl by simp
    then show ?thesis using Leaf c by (subst descend.simps) (simp add: Child_def)
  next
    case (Node l1 a1 k1 v1 r1)
    then have ne: "l \<noteq> Leaf" by simp
    from rep_nonempty[OF rl ne] obtain c' where c': "Child_lo (cell st a) = Some c'" by blast
    have "descend c' lo st = Some (Inr (hd (addrs l)))" using Node.IH(1)[OF rl ne c'] .
    moreover have "addrs l \<noteq> []" using Node by simp
    ultimately show ?thesis using c c' by (subst descend.simps) (simp add: Child_def)
  qed
qed

lemma ascend_rep:
  "rep st p q t \<Longrightarrow> p \<notin> set (addrs t) \<Longrightarrow> distinct (addrs t) \<Longrightarrow> i < length (addrs t) \<Longrightarrow>
   Child_hi (cell st (addrs t ! i)) = None \<Longrightarrow>
   (if Suc i < length (addrs t)
    then \<exists>cur. ascend (Some (addrs t ! i)) hi st = Some (Inr (Some cur)) \<and>
           which (Some cur) st = Inr lo \<and> Parent (cell st cur) = Some (addrs t ! Suc i)
    else ascend (Some (addrs t ! i)) hi st = ascend q hi st)"
proof (induction t arbitrary: p q i)
  case Leaf
  then show ?case by simp
next
  case (Node l a k v r)
  from Node.prems have q: "q = Some a" and par: "Parent (cell st a) = Some p" and pa: "p \<noteq> a"
    and l: "rep st a (Child_lo (cell st a)) l" and r: "rep st a (Child_hi (cell st a)) r"
    and al: "a \<notin> set (addrs l)" and ar: "a \<notin> set (addrs r)"
    and dl: "distinct (addrs l)" and dr: "distinct (addrs r)"
    and lr: "set (addrs l) \<inter> set (addrs r) = {}"
    by auto
  let ?n = "length (addrs l)"
  have lohi: "lo \<noteq> hi" by (simp add: lo_def hi_def)
  consider (left) "i < ?n" | (mid) "i = ?n" | (right) "?n < i" by linarith
  then show ?case
  proof cases
    case left
    then have nth: "addrs (Node l a k v r) ! i = addrs l ! i" by (simp add: nth_append)
    have hi0: "Child_hi (cell st (addrs l ! i)) = None" using Node.prems(5) nth by simp
    note IH = Node.IH(1)[OF l al dl left hi0]
    have lne: "l \<noteq> Leaf" using left by auto
    from rep_nonempty[OF l lne] obtain c where c: "Child_lo (cell st a) = Some c"
      and cp: "Parent (cell st c) = Some a" by blast
    show ?thesis
    proof (cases "Suc i < ?n")
      case True
      then have "addrs (Node l a k v r) ! Suc i = addrs l ! Suc i" by (simp add: nth_append)
      then show ?thesis using IH True nth by simp
    next
      case False
      then have si: "Suc i = ?n" using left by simp
      have "ascend (Some (addrs l ! i)) hi st = ascend (Some c) hi st" using IH False c by simp
      also have "\<dots> = Some (Inr (Some c))"
        using which_lo[OF cp c] lohi by (intro ascend_stop) auto
      finally have "ascend (Some (addrs l ! i)) hi st = Some (Inr (Some c))" .
      moreover have "addrs (Node l a k v r) ! Suc i = a" using si by (simp add: nth_append)
      ultimately show ?thesis using nth si which_lo[OF cp c] cp by simp
    qed
  next
    case mid
    then have nth: "addrs (Node l a k v r) ! i = a" by (simp add: nth_append)
    then have "Child_hi (cell st a) = None" using Node.prems(5) by simp
    then have "r = Leaf" using r by (cases r) auto
    then show ?thesis using mid nth q by simp
  next
    case right
    define j where "j = i - Suc ?n"
    have i: "i = Suc ?n + j" using right by (simp add: j_def)
    have jr: "j < length (addrs r)" using Node.prems(4) i by simp
    have nth: "addrs (Node l a k v r) ! i = addrs r ! j" using i by (simp add: nth_append)
    have hi0: "Child_hi (cell st (addrs r ! j)) = None" using Node.prems(5) nth by simp
    note IH = Node.IH(2)[OF r ar dr jr hi0]
    have rne: "r \<noteq> Leaf" using jr by auto
    from rep_nonempty[OF r rne] obtain c where c: "Child_hi (cell st a) = Some c"
      and cin: "c \<in> set (addrs r)" and cp: "Parent (cell st c) = Some a" by blast
    have nlo: "Child_lo (cell st a) \<noteq> Some c"
    proof
      assume "Child_lo (cell st a) = Some c"
      then obtain l1 k1 v1 r1 where "l = Node l1 c k1 v1 r1" using rep_Some l by metis
      then have "c \<in> set (addrs l)" by simp
      then show False using cin lr by auto
    qed
    show ?thesis
    proof (cases "Suc j < length (addrs r)")
      case True
      then have "addrs (Node l a k v r) ! Suc i = addrs r ! Suc j" using i by (simp add: nth_append)
      then show ?thesis using IH True nth i by simp
    next
      case False
      have "ascend (Some (addrs r ! j)) hi st = ascend (Some c) hi st" using IH False c by simp
      also have "\<dots> = ascend (Some a) hi st"
        using ascend_step[OF which_hi[OF cp nlo c]] cp by simp
      finally show ?thesis using nth False i q by simp
    qed
  qed
qed


lemma hi_child_rep:
  "rep st p q t \<Longrightarrow> i < length (addrs t) \<Longrightarrow> Child_hi (cell st (addrs t ! i)) = Some c \<Longrightarrow>
     Suc i < length (addrs t) \<and> descend c lo st = Some (Inr (addrs t ! Suc i))"
proof (induction t arbitrary: p q i)
  case Leaf
  then show ?case by simp
next
  case (Node l a k v r)
  from Node.prems have l: "rep st a (Child_lo (cell st a)) l" and r: "rep st a (Child_hi (cell st a)) r"
    by auto
  let ?n = "length (addrs l)"
  consider (left) "i < ?n" | (mid) "i = ?n" | (right) "?n < i" by linarith
  then show ?case
  proof cases
    case left
    then have "Child_hi (cell st (addrs l ! i)) = Some c" using Node.prems(3) by (simp add: nth_append)
    from Node.IH(1)[OF l left this] show ?thesis by (simp add: nth_append)
  next
    case mid
    then have c: "Child_hi (cell st a) = Some c" using Node.prems(3) by (simp add: nth_append)
    then have rne: "r \<noteq> Leaf" using r by auto
    then have ne: "addrs r \<noteq> []" by (cases r) auto
    have "descend c lo st = Some (Inr (hd (addrs r)))" using descend_rep[OF r rne c] .
    then show ?thesis using mid ne by (simp add: nth_append hd_conv_nth)
  next
    case right
    define j where "j = i - Suc ?n"
    have i: "i = Suc ?n + j" using right by (simp add: j_def)
    have jr: "j < length (addrs r)" using Node.prems(2) i by simp
    have "Child_hi (cell st (addrs r ! j)) = Some c" using Node.prems(3) i by (simp add: nth_append)
    from Node.IH(2)[OF r jr this] show ?thesis using i by (simp add: nth_append)
  qed
qed

lemma rep_not_sentinel:
  "rep st p q t \<Longrightarrow> p \<notin> set (addrs t) \<Longrightarrow> distinct (addrs t) \<Longrightarrow> x \<in> set (addrs t) \<Longrightarrow>
     \<not> IsSentinel (Some x) st"
  by (induction t arbitrary: p q) (auto simp: IsSentinel_def)

lemma opposite_hi: "opposite hi = lo"
  by (simp add: opposite_def hi_def lo_def)

text \<open>What \<open>next_dir\<close> does after the loop that climbs.\<close>

definition settle :: "(fault + addr option) option \<Rightarrow> ('k, 'v) store \<Rightarrow> (fault + addr option) option" where
  "settle r st =
     (case r of
        None \<Rightarrow> None
      | Some (Inl e) \<Rightarrow> Some (Inl e)
      | Some (Inr None) \<Rightarrow> Some (Inl NilDereference)
      | Some (Inr (Some cur)) \<Rightarrow>
          if IsSentinel (Parent (cell st cur)) st then Some (Inr None)
          else Some (Inr (Parent (cell st cur))))"

lemma Next_no_hi: "Child_hi (cell st a) = None \<Longrightarrow> Next (Some a) st = settle (ascend (Some a) hi st) st"
  by (simp add: Next_def next_dir_def Child_def lo_def hi_def settle_def)

lemma Next_hi:
  "Child_hi (cell st a) = Some c \<Longrightarrow>
     Next (Some a) st = map_option (map_sum id Some) (descend c lo st)"
  by (simp add: Next_def next_dir_def Child_def opposite_hi) (simp add: lo_def hi_def)

lemma ascend_tree_of:
  assumes "tree_of st s t" and "i < length (addrs t)" and "Child_hi (cell st (addrs t ! i)) = None"
  shows "\<exists>cur. ascend (Some (addrs t ! i)) hi st = Some (Inr (Some cur)) \<and>
           which (Some cur) st = Inr lo \<and>
           Parent (cell st cur) = Some (if Suc i < length (addrs t) then addrs t ! Suc i else s)"
proof -
  from assms(1) have par: "Parent (cell st s) = Some s" and rp: "rep st s (Child_lo (cell st s)) t"
    and d: "distinct (addrs t)" and sn: "s \<notin> set (addrs t)"
    by (auto simp: tree_of_def)
  have lohi: "lo \<noteq> hi" by (simp add: lo_def hi_def)
  note A = ascend_rep[OF rp sn d assms(2) assms(3)]
  show ?thesis
  proof (cases "Suc i < length (addrs t)")
    case True
    then show ?thesis using A by simp
  next
    case False
    have ne: "t \<noteq> Leaf" using assms(2) by auto
    from rep_nonempty[OF rp ne] obtain c where c: "Child_lo (cell st s) = Some c"
      and cp: "Parent (cell st c) = Some s" by blast
    have "ascend (Some (addrs t ! i)) hi st = ascend (Some c) hi st" using A False c by simp
    also have "\<dots> = Some (Inr (Some c))"
      using which_lo[OF cp c] lohi by (intro ascend_stop) auto
    finally show ?thesis using which_lo[OF cp c] cp False by simp
  qed
qed

lemma Next_tree_of:
  assumes "tree_of st s t" and "i < length (addrs t)"
  shows "Next (Some (addrs t ! i)) st =
    Some (Inr (if Suc i < length (addrs t) then Some (addrs t ! Suc i) else None))"
proof -
  from assms(1) have par: "Parent (cell st s) = Some s" and rp: "rep st s (Child_lo (cell st s)) t"
    and d: "distinct (addrs t)" and sn: "s \<notin> set (addrs t)"
    by (auto simp: tree_of_def)
  show ?thesis
  proof (cases "Child_hi (cell st (addrs t ! i))")
    case None
    from ascend_tree_of[OF assms None] obtain cur where
      a: "ascend (Some (addrs t ! i)) hi st = Some (Inr (Some cur))"
      and p: "Parent (cell st cur) = Some (if Suc i < length (addrs t) then addrs t ! Suc i else s)"
      by blast
    show ?thesis
    proof (cases "Suc i < length (addrs t)")
      case True
      then have "\<not> IsSentinel (Some (addrs t ! Suc i)) st"
        using rep_not_sentinel[OF rp sn d] by simp
      then show ?thesis using True a p by (simp add: Next_no_hi[OF None] settle_def)
    next
      case False
      have "IsSentinel (Some s) st" using par by (simp add: IsSentinel_def)
      then show ?thesis using False a p by (simp add: Next_no_hi[OF None] settle_def)
    qed
  next
    case (Some c)
    from hi_child_rep[OF rp assms(2) Some] show ?thesis by (simp add: Next_hi[OF Some])
  qed
qed


subsection \<open>Keys and Check\<close>

lemma run_list_hand_over:
  "run_list (\<lambda>a. hand_over Background (g a)) ns s = Inr (None, s @ map g ns)"
  by (induction ns arbitrary: s) (auto simp: hand_over_Background)

lemma rep_Keys: "rep st p q t \<Longrightarrow> map (\<lambda>a. Key (cell st a)) (addrs t) = map Some (keys t)"
  by (induction t arbitrary: p q) auto

lemma Visit_tree_of:
  assumes "tree_of st s t"
  shows "Visit (Some s) f st x = Some (run_list f (addrs t) x)"
proof -
  from assms have par: "Parent (cell st s) = Some s" and rp: "rep st s (Child_lo (cell st s)) t"
    and d: "distinct (addrs t)" and sn: "s \<notin> set (addrs t)"
    by (auto simp: tree_of_def)
  have "Visit (Some s) f st x = Visit (Child_lo (cell st s)) f st x"
    using par by (subst Visit.simps) (simp add: IsSentinel_def)
  then show ?thesis using Visit_rep[OF rp sn d] by simp
qed

lemma Keys_tree_of:
  assumes "tree_of st s t"
  shows "Keys (Some s) Background st = Some (Inr (map Some (keys t)))"
proof -
  from assms have rp: "rep st s (Child_lo (cell st s)) t" by (simp add: tree_of_def)
  show ?thesis
    by (simp add: Keys_def Visit_tree_of[OF assms] run_list_hand_over received_def rep_Keys[OF rp])
qed

lemma Get_tree_of:
  assumes "tree_of st s t"
  shows "Get (Some s) (Some x) st = Some (Inr (locate t x))"
proof -
  from assms have par: "Parent (cell st s) = Some s" and rp: "rep st s (Child_lo (cell st s)) t"
    and d: "distinct (addrs t)" and sn: "s \<notin> set (addrs t)"
    by (auto simp: tree_of_def)
  have "Get (Some s) (Some x) st = Get (Child_lo (cell st s)) (Some x) st"
    using par by (subst Get.simps) (simp add: IsSentinel_def)
  then show ?thesis using Get_rep[OF rp sn d] by simp
qed

lemma rep_root_key:
  "rep st p (Some c) t \<Longrightarrow> \<exists>k\<in>set (keys t). Key (cell st c) = Some k"
  by (cases t) auto

lemma Check_visit_bst:
  "rep st p q t \<Longrightarrow> bst t \<Longrightarrow> a \<in> set (addrs t) \<Longrightarrow> Check_visit ctx st a x = Inr (None, x)"
proof (induction t arbitrary: p q)
  case Leaf
  then show ?case by simp
next
  case (Node l b k v r)
  from Node.prems have l: "rep st b (Child_lo (cell st b)) l" and r: "rep st b (Child_hi (cell st b)) r"
    and key: "Key (cell st b) = Some k"
    and bl: "bst l" and br: "bst r"
    and kl: "\<forall>x\<in>set (keys l). x < k" and kr: "\<forall>x\<in>set (keys r). k < x"
    by auto
  show ?case
  proof (cases "a = b")
    case True
    have "badLo b st = Inr False"
    proof (cases "Child_lo (cell st b)")
      case None
      then show ?thesis by (simp add: badLo_def)
    next
      case (Some c)
      then obtain kc where "kc \<in> set (keys l)" "Key (cell st c) = Some kc"
        using rep_root_key l by fastforce
      then show ?thesis using Some key kl by (simp add: badLo_def Less_def)
    qed
    moreover have "badHi b st = Inr False"
    proof (cases "Child_hi (cell st b)")
      case None
      then show ?thesis by (simp add: badHi_def)
    next
      case (Some c)
      then obtain kc where "kc \<in> set (keys r)" "Key (cell st c) = Some kc"
        using rep_root_key r by fastforce
      then show ?thesis using Some key kr by (simp add: badHi_def Less_def)
    qed
    ultimately show ?thesis using True by (simp add: Check_visit_def)
  next
    case False
    then have "a \<in> set (addrs l) \<or> a \<in> set (addrs r)" using Node.prems(3) by auto
    then show ?thesis using Node.IH(1)[OF l bl] Node.IH(2)[OF r br] by blast
  qed
qed

lemma run_list_silent:
  "(\<And>a x. a \<in> set ns \<Longrightarrow> f a x = Inr (None, x)) \<Longrightarrow> run_list f ns s = Inr (None, s)"
  by (induction ns arbitrary: s) auto

lemma Check_tree_of:
  assumes "tree_of st s t" and "bst t"
  shows "Check (Some s) ctx st = Some (Inr [])"
proof -
  from assms have rp: "rep st s (Child_lo (cell st s)) t" by (simp add: tree_of_def)
  have "run_list (Check_visit ctx st) (addrs t) [] = Inr (None, [])"
    by (rule run_list_silent) (rule Check_visit_bst[OF rp assms(2)])
  then show ?thesis by (simp add: Check_def Visit_tree_of[OF assms(1)] received_def)
qed

text \<open>
  The condition of the checker in the words of the specification: the \<open>Lo\<close> child exists
  and its key is not strictly less than the node's, or the \<open>Hi\<close> child exists and its key
  is not strictly greater.
\<close>

definition out_of_order :: "('k::linorder, 'v) store \<Rightarrow> addr \<Rightarrow> bool" where
  "out_of_order st a =
     ((case Child_lo (cell st a) of
         None \<Rightarrow> False
       | Some c \<Rightarrow>
           (case (Key (cell st c), Key (cell st a)) of
              (Some kc, Some ka) \<Rightarrow> \<not> kc < ka
            | _ \<Rightarrow> False)) \<or>
      (case Child_hi (cell st a) of
         None \<Rightarrow> False
       | Some c \<Rightarrow>
           (case (Key (cell st c), Key (cell st a)) of
              (Some kc, Some ka) \<Rightarrow> \<not> ka < kc
            | _ \<Rightarrow> False)))"

text \<open>A node that has a key, and whose children have keys: the checker can compare them.\<close>

definition keyed :: "('k, 'v) store \<Rightarrow> addr \<Rightarrow> bool" where
  "keyed st a =
     (Key (cell st a) \<noteq> None \<and>
      (case Child_lo (cell st a) of None \<Rightarrow> True | Some c \<Rightarrow> Key (cell st c) \<noteq> None) \<and>
      (case Child_hi (cell st a) of None \<Rightarrow> True | Some c \<Rightarrow> Key (cell st c) \<noteq> None))"

lemma Check_visit_keyed:
  "keyed st a \<Longrightarrow>
     Check_visit Background st a x = Inr (None, if out_of_order st a then x @ [a] else x)"
  by (auto simp: keyed_def Check_visit_def badLo_def badHi_def Less_def out_of_order_def
      hand_over_Background split: option.splits)

lemma run_list_Check:
  "(\<And>a. a \<in> set ns \<Longrightarrow> keyed st a) \<Longrightarrow>
     run_list (Check_visit Background st) ns x = Inr (None, x @ filter (out_of_order st) ns)"
  by (induction ns arbitrary: x) (auto simp: Check_visit_keyed)

lemma Check_Nodes:
  assumes "Nodes n st = Some (Inr ns)" and "\<And>a. a \<in> set ns \<Longrightarrow> keyed st a"
  shows "Check n Background st = Some (Inr (filter (out_of_order st) ns)) \<and>
    (\<forall>a\<in>set ns. \<not> IsSentinel (Some a) st)"
proof -
  from assms(1) obtain y where v: "Visit n (\<lambda>a. hand_over Background a) st [] = Some y"
    and y: "map_sum id snd y = Inr ns"
    by (auto simp: Nodes_def received_def)
  from Visit_collect[OF v refl, where ?'t = "addr list" and ?'u = ctx_error] obtain ms where
    ym: "y = Inr (None, [] @ ms)"
    and g: "\<forall>(g :: addr \<Rightarrow> addr list \<Rightarrow> fault + ctx_error option \<times> addr list) s'.
          Visit n g st s' = Some (run_list g ms s')"
    and ns: "\<forall>a\<in>set ms. \<not> IsSentinel (Some a) st"
    by (elim exE conjE)
  have "ms = ns" using y ym by simp
  then show ?thesis
    using g ns run_list_Check[of ns st "[]"] assms(2) by (simp add: Check_def received_def)
qed

lemma Get_result:
  "Get n k st = Some y \<Longrightarrow> y = Inr (Some r) \<Longrightarrow>
     \<not> IsSentinel (Some r) st \<and> k \<noteq> None \<and> Key (cell st r) = k"
proof (induction n k st y rule: Get.raw_induct[rotated 1, consumes 1, case_names step])
  case (step G n k st y)
  show ?case
  proof (cases n)
    case None
    then show ?thesis using step.hyps step.prems by simp
  next
    case (Some a)
    show ?thesis
    proof (cases "IsSentinel (Some a) st")
      case True
      then have "G (Child_lo (cell st a)) k st = Some y" using step.hyps Some by simp
      from step.IH[OF this step.prems] show ?thesis .
    next
      case False
      show ?thesis
        using step.hyps step.prems step.IH False unfolding Some
        by (auto simp: Less_def split: option.splits if_splits)
    qed
  qed
qed

subsection \<open>Trees built by insertion\<close>

lemma keys_upto:
  assumes "bst t" and "set (keys t) = {i..j}"
  shows "keys t = [i..j]"
proof -
  have "sorted_wrt (<) (keys t)" using assms(1) by (rule sorted_keys)
  then have "sorted (keys t)" "distinct (keys t)" by (simp_all add: strict_sorted_iff)
  then show ?thesis using assms(2) by (intro sorted_distinct_set_unique) simp_all
qed

lemma locate_nth:
  assumes "bst t" and "i < length (keys t)"
  shows "locate t (keys t ! i) = Some (addrs t ! i)"
proof -
  have "(addrs t ! i, keys t ! i) \<in> set (zip (addrs t) (keys t))"
    using assms(2) by (simp add: in_set_zip length_addrs_keys) (metis length_addrs_keys)
  then show ?thesis using locate_zip[OF assms(1)] by simp
qed

lemma built:
  assumes "NewBasic st0 = (st1, s)"
  shows "\<exists>st t. Insert_all (Some s) kvs st1 = Some (Inr st) \<and> tree_of st s t \<and> bst t \<and>
     set (keys t) = fst ` set kvs \<and>
     (\<forall>x. held t x = map_option Some (map_of (rev kvs) x))"
proof -
  have t0: "tree_of st1 s Leaf" using assms by (rule tree_of_NewBasic)
  from Insert_all_tree_of[OF t0, of kvs] obtain st t where
    "Insert_all (Some s) kvs st1 = Some (Inr st)" "tree_of st s t" "bst t"
    "set (keys t) = set (keys (Leaf :: ('a, 'b) tree)) \<union> fst ` set kvs"
    "\<forall>x. held t x = (case map_of (rev kvs) x of Some v \<Rightarrow> Some (Some v) | None \<Rightarrow> held (Leaf :: ('a, 'b) tree) x)"
    by auto
  then show ?thesis
    by (intro exI[of _ st] exI[of _ t]) (auto split: option.splits)
qed

lemma node_of_key:
  assumes "bst t" and "keys t = [0..63]" and "0 \<le> i" and "i \<le> 63"
  shows "locate t i = Some (addrs t ! nat i)" and "nat i < length (addrs t)"
proof -
  have len: "length (keys t) = 64" using assms(2) by simp
  have n: "nat i < length (keys t)" using assms(3,4) len by simp
  have "keys t ! nat i = i" using assms(2,3,4) by (simp add: nth_upto)
  then show "locate t i = Some (addrs t ! nat i)" using locate_nth[OF assms(1) n] by simp
  show "nat i < length (addrs t)" using n by (simp add: length_addrs_keys)
qed

lemma Nodes_tree_of:
  assumes "tree_of st s t"
  shows "Nodes (Some s) st = Some (Inr (addrs t))"
  using run_list_hand_over[of "\<lambda>a. a" "addrs t" "[]"]
  by (simp add: Nodes_def Visit_tree_of[OF assms] received_def)

lemma keyed_rep:
  "rep st p q t \<Longrightarrow> a \<in> set (addrs t) \<Longrightarrow> keyed st a"
proof (induction t arbitrary: p q)
  case Leaf
  then show ?case by simp
next
  case (Node l b k v r)
  from Node.prems have l: "rep st b (Child_lo (cell st b)) l" and r: "rep st b (Child_hi (cell st b)) r"
    and key: "Key (cell st b) = Some k"
    by auto
  show ?case
  proof (cases "a = b")
    case True
    have "case Child_lo (cell st b) of None \<Rightarrow> True | Some c \<Rightarrow> Key (cell st c) \<noteq> None"
      using rep_root_key l by (fastforce split: option.splits)
    moreover have "case Child_hi (cell st b) of None \<Rightarrow> True | Some c \<Rightarrow> Key (cell st c) \<noteq> None"
      using rep_root_key r by (fastforce split: option.splits)
    ultimately show ?thesis using True key by (simp add: keyed_def)
  next
    case False
    then have "a \<in> set (addrs l) \<or> a \<in> set (addrs r)" using Node.prems(2) by auto
    then show ?thesis using Node.IH(1)[OF l] Node.IH(2)[OF r] by blast
  qed
qed

lemma NewBasic_fresh_tree: "NewBasic (empty_store :: (int, int) store) = (fst fresh_tree, snd fresh_tree)"
  by (simp add: fresh_tree_def)

lemma keys_rev_0_63: "fst ` set (map (\<lambda>k. (k, - k)) (rev [0..63])) = {0..63::int}"
  by (simp add: image_image)


subsection \<open>Delete on a well-linked tree\<close>











section \<open>The claims\<close>

text \<open>
  C1. The claim: after every operation, a node that a child slot points to points back
  at the holder of the slot. \<^verbatim>\<open>Insert\<close> keeps this (\<open>Insert_tree_of\<close>: \<open>rep\<close> contains
  it). \<^verbatim>\<open>Delete\<close> does not: it moves the child of the deleted node into the parent's slot
  and leaves the child's \<^verbatim>\<open>Parent\<close> at the deleted node. Insert 2, then 1, and delete the
  node of 2 (address 1, whose \<open>Lo\<close> child is the node of 1 at address 2): the sentinel's
  \<open>Lo\<close> slot now holds the node of 1, whose \<^verbatim>\<open>Parent\<close> is still the deleted node, and
  \<^verbatim>\<open>Next\<close> of that node, the only key left, returns the deleted node instead of nil.
\<close>

theorem Delete_leaves_stale_parent:
  "and_then (tree_of_keys [2, 1]) (Get (Some (snd fresh_tree)) (Some 2)) = Some (Inr (Some 1)) \<and>
   and_then (tree_of_keys [2, 1]) (read Child_lo (Some 1)) = Some (Inr (Some 2)) \<and>
   and_then (and_then (tree_of_keys [2, 1]) (Delete (Some 1))) (read Child_lo (Some (snd fresh_tree)))
     = Some (Inr (Some 2)) \<and>
   and_then (and_then (tree_of_keys [2, 1]) (Delete (Some 1))) (read Parent (Some 2))
     = Some (Inr (Some 1)) \<and>
   and_then (and_then (tree_of_keys [2, 1]) (Delete (Some 1))) (Keys (Some (snd fresh_tree)) Background)
     = Some (Inr [Some 1]) \<and>
   and_then (and_then (tree_of_keys [2, 1]) (Delete (Some 1))) (Next (Some 2))
     = Some (Inr (Some 1))"
  by (intro conjI; code_simp)




text \<open>
  C3. The claim: insert 3, 1, 5, 0, 2, 4, 6 (each key \<open>k\<close> with the value \<open>- k\<close>) into a
  fresh tree and delete the node that \<^verbatim>\<open>Get(3)\<close> returns; then \<^verbatim>\<open>Check\<close> emits nothing,
  \<^verbatim>\<open>Get(3)\<close> returns nil, and every other key is still found with its value. The claim
  cites both bodies of \<^verbatim>\<open>Delete\<close>. The one of \<^verbatim>\<open>basic.go\<close> ends in
  \<^verbatim>\<open>default: // TODO\<close> and removes nothing, against its own comment
  (\<^verbatim>\<open>Delete removes a node from the tree\<close>): after the run \<^verbatim>\<open>Get(3)\<close> still returns the
  node at address 1 with the value \<open>- 3\<close>, and the key stream still has 3.
\<close>

theorem Delete_todo_keeps_3:
  "and_then (and_then (tree_of_keys [3, 1, 5, 0, 2, 4, 6]) (Delete_todo_key 3))
      (Get (Some (snd fresh_tree)) (Some 3)) = Some (Inr (Some 1)) \<and>
   and_then (and_then (tree_of_keys [3, 1, 5, 0, 2, 4, 6]) (Delete_todo_key 3))
      (Value_of_key 3) = Some (Inr (Some (- 3))) \<and>
   and_then (and_then (tree_of_keys [3, 1, 5, 0, 2, 4, 6]) (Delete_todo_key 3))
      (Keys (Some (snd fresh_tree)) Background) =
        Some (Inr [Some 0, Some 1, Some 2, Some 3, Some 4, Some 5, Some 6])"
  by (intro conjI; code_simp)

text \<open>
  With the finished body of \<^verbatim>\<open>Delete\<close> the same run does what the claim says:
  \<^verbatim>\<open>Check\<close> emits nothing, \<^verbatim>\<open>Get(3)\<close> returns nil, and \<^verbatim>\<open>Get\<close> of every other key
  returns a node that holds the value the key was inserted with.
\<close>

theorem Delete_3_of_seven:
  "and_then (and_then (tree_of_keys [3, 1, 5, 0, 2, 4, 6]) (Delete_key 3))
      (Check (Some (snd fresh_tree)) Background) = Some (Inr []) \<and>
   and_then (and_then (tree_of_keys [3, 1, 5, 0, 2, 4, 6]) (Delete_key 3))
      (Get (Some (snd fresh_tree)) (Some 3)) = Some (Inr None) \<and>
   and_then (and_then (tree_of_keys [3, 1, 5, 0, 2, 4, 6]) (Delete_key 3))
      (Value_of_key 0) = Some (Inr (Some 0)) \<and>
   and_then (and_then (tree_of_keys [3, 1, 5, 0, 2, 4, 6]) (Delete_key 3))
      (Value_of_key 1) = Some (Inr (Some (- 1))) \<and>
   and_then (and_then (tree_of_keys [3, 1, 5, 0, 2, 4, 6]) (Delete_key 3))
      (Value_of_key 2) = Some (Inr (Some (- 2))) \<and>
   and_then (and_then (tree_of_keys [3, 1, 5, 0, 2, 4, 6]) (Delete_key 3))
      (Value_of_key 4) = Some (Inr (Some (- 4))) \<and>
   and_then (and_then (tree_of_keys [3, 1, 5, 0, 2, 4, 6]) (Delete_key 3))
      (Value_of_key 5) = Some (Inr (Some (- 5))) \<and>
   and_then (and_then (tree_of_keys [3, 1, 5, 0, 2, 4, 6]) (Delete_key 3))
      (Value_of_key 6) = Some (Inr (Some (- 6)))"
  by (intro conjI; code_simp)

text \<open>
  C4. After any sequence of insertions into a fresh tree, \<^verbatim>\<open>Get(k)\<close> returns a node
  that holds \<open>k\<close> and the value \<open>k\<close> was last inserted with (\<open>map_of (rev kvs) k\<close> is the
  last pair of \<open>kvs\<close> with the key \<open>k\<close>), and nil for a key that was never inserted; with
  no insertion at all that is every key. The tree holds every inserted key in exactly one
  node: the key stream has no repetition and consists of the inserted keys.
\<close>

theorem Insert_then_Get:
  assumes "NewBasic st0 = (st1, s)"
  shows "\<exists>st. Insert_all (Some s) kvs st1 = Some (Inr st) \<and>
     (\<forall>k. case map_of (rev kvs) k of
             None \<Rightarrow> Get (Some s) (Some k) st = Some (Inr None)
           | Some v \<Rightarrow>
               (\<exists>a. Get (Some s) (Some k) st = Some (Inr (Some a)) \<and>
                  Key (cell st a) = Some k \<and> Value (cell st a) = Some v)) \<and>
     (\<exists>ks. Keys (Some s) Background st = Some (Inr (map Some ks)) \<and> distinct ks \<and>
        set ks = fst ` set kvs)"
proof -
  from built[OF assms, of kvs] obtain st t where
    ia: "Insert_all (Some s) kvs st1 = Some (Inr st)" and tr: "tree_of st s t" and b: "bst t"
    and ks: "set (keys t) = fst ` set kvs"
    and h: "\<And>x. held t x = map_option Some (map_of (rev kvs) x)"
    by blast
  from tr have rp: "rep st s (Child_lo (cell st s)) t" and d: "distinct (addrs t)"
    by (simp_all add: tree_of_def)
  have "case map_of (rev kvs) k of
             None \<Rightarrow> Get (Some s) (Some k) st = Some (Inr None)
           | Some v \<Rightarrow>
               (\<exists>a. Get (Some s) (Some k) st = Some (Inr (Some a)) \<and>
                  Key (cell st a) = Some k \<and> Value (cell st a) = Some v)" for k
  proof (cases "map_of (rev kvs) k")
    case None
    then have "held t k = None" using h by simp
    then have "locate t k = None" by (simp add: locate_None_iff)
    then show ?thesis using None Get_tree_of[OF tr, of k] by simp
  next
    case (Some v)
    then have hv: "held t k = Some (Some v)" using h by simp
    then have "locate t k \<noteq> None" by (simp add: locate_None_iff)
    then obtain a where a: "locate t k = Some a" by blast
    from rep_locate[OF rp d a] hv have "Key (cell st a) = Some k" "Value (cell st a) = Some v"
      by simp_all
    then show ?thesis using Some a Get_tree_of[OF tr, of k] by simp
  qed
  moreover have "distinct (keys t)" using sorted_keys[OF b] by (simp add: strict_sorted_iff)
  ultimately show ?thesis
    using ia ks Keys_tree_of[OF tr] by (intro exI[of _ st]) blast
qed

theorem Insert_then_Get_witness:
  "NewBasic (empty_store :: (int, int) store) = (fst fresh_tree, snd fresh_tree) \<and>
   (\<exists>st. Insert_all (Some (snd fresh_tree)) [(1, 10), (2, 20), (1, 11)] (fst fresh_tree)
        = Some (Inr st) \<and>
      (\<exists>a. Get (Some (snd fresh_tree)) (Some 1) st = Some (Inr (Some a)) \<and>
         Value (cell st a) = Some 11) \<and>
      Get (Some (snd fresh_tree)) (Some 3) st = Some (Inr None))"
proof -
  from Insert_then_Get [OF NewBasic_fresh_tree, of "[(1, 10), (2, 20), (1, 11)]"] obtain st where
    i: "Insert_all (Some (snd fresh_tree)) [(1, 10), (2, 20), (1, 11)] (fst fresh_tree) = Some (Inr st)"
    and g: "\<And>k. case map_of (rev [(1 :: int, 10 :: int), (2, 20), (1, 11)]) k of
             None \<Rightarrow> Get (Some (snd fresh_tree)) (Some k) st = Some (Inr None)
           | Some v \<Rightarrow>
               (\<exists>a. Get (Some (snd fresh_tree)) (Some k) st = Some (Inr (Some a)) \<and>
                  Key (cell st a) = Some k \<and> Value (cell st a) = Some v)"
    by blast
  from g[of 1] g[of 3] i show ?thesis using NewBasic_fresh_tree by auto
qed

text \<open>
  C5. Insert the keys 0, ..., 63 in any order (here: any list of pairs whose keys are
  exactly these). Then \<^verbatim>\<open>Next\<close> of the node of \<open>i\<close> is the node of \<open>i + 1\<close> for
  \<open>i < 63\<close>, and nil for 63. It gets there as the specification says: when the node has a
  \<open>Hi\<close> child, by the loop that descends from it along \<open>Lo\<close>; otherwise by the loop that
  climbs \<^verbatim>\<open>Parent\<close> links, which stops at a node that is the \<open>Lo\<close> child of its parent,
  and the parent is the answer (nil when it is the sentinel). Neither loop starts at the
  root.
\<close>

theorem Next_successor_chain:
  assumes "NewBasic st0 = (st1, s)" and "fst ` set kvs = {0..63::int}"
  shows "\<exists>st. Insert_all (Some s) kvs st1 = Some (Inr st) \<and>
    (\<forall>i\<in>{0..<63}. \<exists>a b.
        Get (Some s) (Some i) st = Some (Inr (Some a)) \<and> Key (cell st a) = Some i \<and>
        Next (Some a) st = Some (Inr (Some b)) \<and>
        Get (Some s) (Some (i + 1)) st = Some (Inr (Some b)) \<and> Key (cell st b) = Some (i + 1)) \<and>
    (\<exists>a. Get (Some s) (Some 63) st = Some (Inr (Some a)) \<and> Key (cell st a) = Some 63 \<and>
        Next (Some a) st = Some (Inr None)) \<and>
    (\<forall>i\<in>{0..63}. \<exists>a.
        Get (Some s) (Some i) st = Some (Inr (Some a)) \<and>
        (case Child_hi (cell st a) of
           Some c \<Rightarrow> Next (Some a) st = map_option (map_sum id Some) (descend c lo st)
         | None \<Rightarrow>
             (\<exists>cur. ascend (Some a) hi st = Some (Inr (Some cur)) \<and>
                which (Some cur) st = Inr lo \<and>
                Next (Some a) st =
                  Some (Inr (if IsSentinel (Parent (cell st cur)) st then None
                             else Parent (cell st cur))))))"
proof -
  from built[OF assms(1), of kvs] obtain st t where
    ia: "Insert_all (Some s) kvs st1 = Some (Inr st)" and tr: "tree_of st s t" and b: "bst t"
    and ks: "set (keys t) = fst ` set kvs"
    by blast
  from tr have rp: "rep st s (Child_lo (cell st s)) t" and d: "distinct (addrs t)"
    by (simp_all add: tree_of_def)
  have k: "keys t = [0..63]" using keys_upto[OF b] ks assms(2) by simp
  have len: "length (addrs t) = 64" using k by (simp add: length_addrs_keys)
  note G = Get_tree_of[OF tr] and N = Next_tree_of[OF tr] and K = node_of_key[OF b k]
  have key: "Key (cell st (addrs t ! nat i)) = Some i" if "0 \<le> i" "i \<le> 63" for i
    using rep_locate[OF rp d K(1)[OF that]] by simp
  have chain: "\<exists>a b. Get (Some s) (Some i) st = Some (Inr (Some a)) \<and> Key (cell st a) = Some i \<and>
        Next (Some a) st = Some (Inr (Some b)) \<and>
        Get (Some s) (Some (i + 1)) st = Some (Inr (Some b)) \<and> Key (cell st b) = Some (i + 1)"
    if "i \<in> {0..<63}" for i
  proof -
    from that have i: "0 \<le> i" "i \<le> 63" "0 \<le> i + 1" "i + 1 \<le> 63" by auto
    have "nat (i + 1) = Suc (nat i)" using i by simp
    moreover have "Suc (nat i) < 64" using i by simp
    ultimately show ?thesis
      using G[of i] G[of "i + 1"] K(1)[OF i(1,2)] K(1)[OF i(3,4)] N[OF K(2)[OF i(1,2)]] len
        key[OF i(1,2)] key[OF i(3,4)]
      by simp
  qed
  have last: "\<exists>a. Get (Some s) (Some 63) st = Some (Inr (Some a)) \<and> Key (cell st a) = Some 63 \<and>
      Next (Some a) st = Some (Inr None)"
    using G[of 63] K(1)[of 63] N[OF K(2)[of 63]] len key[of 63] by simp
  have how: "\<exists>a. Get (Some s) (Some i) st = Some (Inr (Some a)) \<and>
        (case Child_hi (cell st a) of
           Some c \<Rightarrow> Next (Some a) st = map_option (map_sum id Some) (descend c lo st)
         | None \<Rightarrow>
             (\<exists>cur. ascend (Some a) hi st = Some (Inr (Some cur)) \<and>
                which (Some cur) st = Inr lo \<and>
                Next (Some a) st =
                  Some (Inr (if IsSentinel (Parent (cell st cur)) st then None
                             else Parent (cell st cur)))))" if "i \<in> {0..63}" for i
  proof -
    from that have i: "0 \<le> i" "i \<le> 63" by auto
    let ?a = "addrs t ! nat i"
    have g: "Get (Some s) (Some i) st = Some (Inr (Some ?a))" using G[of i] K(1)[OF i] by simp
    show ?thesis
    proof (cases "Child_hi (cell st ?a)")
      case None
      from ascend_tree_of[OF tr K(2)[OF i] None] obtain cur where
        "ascend (Some ?a) hi st = Some (Inr (Some cur))" "which (Some cur) st = Inr lo"
        by blast
      then show ?thesis using g None by (simp add: Next_no_hi[OF None] settle_def)
    next
      case (Some c)
      then show ?thesis using g by (simp add: Next_hi[OF Some])
    qed
  qed
  show ?thesis using ia chain last how by (intro exI[of _ st]) blast
qed

theorem Next_successor_chain_witness:
  "fst ` set (map (\<lambda>k. (k, - k)) (rev [0..63])) = {0..63::int} \<and>
   (\<exists>st. tree_of_keys (rev [0..63]) = Some (Inr st) \<and>
      (\<exists>a b. Get (Some (snd fresh_tree)) (Some 7) st = Some (Inr (Some a)) \<and>
         Next (Some a) st = Some (Inr (Some b)) \<and>
         Get (Some (snd fresh_tree)) (Some 8) st = Some (Inr (Some b))) \<and>
      (\<exists>a. Get (Some (snd fresh_tree)) (Some 63) st = Some (Inr (Some a)) \<and>
         Next (Some a) st = Some (Inr None)))"
proof -
  from Next_successor_chain [OF NewBasic_fresh_tree keys_rev_0_63] obtain st where
    i: "tree_of_keys (rev [0..63]) = Some (Inr st)"
    and c: "\<forall>i\<in>{0..<63}. \<exists>a b.
        Get (Some (snd fresh_tree)) (Some i) st = Some (Inr (Some a)) \<and>
        Key (cell st a) = Some i \<and>
        Next (Some a) st = Some (Inr (Some b)) \<and>
        Get (Some (snd fresh_tree)) (Some (i + 1)) st = Some (Inr (Some b)) \<and>
        Key (cell st b) = Some (i + 1)"
    and l: "\<exists>a. Get (Some (snd fresh_tree)) (Some 63) st = Some (Inr (Some a)) \<and>
         Key (cell st a) = Some 63 \<and> Next (Some a) st = Some (Inr None)"
    unfolding tree_of_keys_def by blast
  from c have "\<exists>a b. Get (Some (snd fresh_tree)) (Some 7) st = Some (Inr (Some a)) \<and>
         Key (cell st a) = Some 7 \<and>
         Next (Some a) st = Some (Inr (Some b)) \<and>
         Get (Some (snd fresh_tree)) (Some (7 + 1)) st = Some (Inr (Some b)) \<and>
         Key (cell st b) = Some (7 + 1)"
    by (rule bspec) simp
  then show ?thesis using i l keys_rev_0_63 by auto
qed

text \<open>
  C6. After inserting the keys 0, ..., 63 in any order, the key stream, never
  cancelled, delivers 0, 1, ..., 63 in this order, each once.
\<close>

theorem Keys_of_0_to_63:
  assumes "NewBasic st0 = (st1, s)" and "fst ` set kvs = {0..63}"
  shows "\<exists>st. Insert_all (Some s) kvs st1 = Some (Inr st) \<and>
     Keys (Some s) Background st = Some (Inr (map Some [0..63]))"
proof -
  from built[OF assms(1), of kvs] obtain st t where
    ia: "Insert_all (Some s) kvs st1 = Some (Inr st)" and tr: "tree_of st s t" and b: "bst t"
    and ks: "set (keys t) = fst ` set kvs"
    by blast
  have "keys t = [0..63]" using keys_upto[OF b] ks assms(2) by simp
  then show ?thesis using ia Keys_tree_of[OF tr] by simp
qed

theorem Keys_of_0_to_63_witness:
  "fst ` set (map (\<lambda>k. (k, - k)) (rev [0..63])) = {0..63::int} \<and>
   (\<exists>st. tree_of_keys (rev [0..63]) = Some (Inr st) \<and>
      Keys (Some (snd fresh_tree)) Background st = Some (Inr (map Some [0..63])))"
  using Keys_of_0_to_63 [OF NewBasic_fresh_tree keys_rev_0_63] keys_rev_0_63
  unfolding tree_of_keys_def by blast

text \<open>
  C7. The nodes of a tree are those \<^verbatim>\<open>Visit\<close> calls its callback on (\<open>Nodes\<close>); none
  of them is a sentinel. When each of them and its children have keys, so that the
  comparisons do not panic, \<^verbatim>\<open>Check\<close> emits exactly the nodes that are
  \<open>out_of_order\<close>, in tree order. After any sequence of insertions into a fresh tree, so
  after inserting any permutation of 0, ..., 63, all nodes have keys and \<^verbatim>\<open>Check\<close> emits
  nothing.
\<close>

theorem Check_emits_out_of_order:
  "(Nodes n st = Some (Inr ns) \<and> (\<forall>a\<in>set ns. keyed st a) \<longrightarrow>
      Check n Background st = Some (Inr (filter (out_of_order st) ns)) \<and>
      (\<forall>a\<in>set ns. \<not> IsSentinel (Some a) st)) \<and>
   (NewBasic st0 = (st1, s) \<longrightarrow>
      (\<exists>st' ms. Insert_all (Some s) kvs st1 = Some (Inr st') \<and>
         Nodes (Some s) st' = Some (Inr ms) \<and> (\<forall>a\<in>set ms. keyed st' a) \<and>
         Check (Some s) Background st' = Some (Inr [])))"
proof (intro conjI impI)
  assume a: "Nodes n st = Some (Inr ns) \<and> (\<forall>a\<in>set ns. keyed st a)"
  then show "Check n Background st = Some (Inr (filter (out_of_order st) ns))"
    using Check_Nodes[of n st ns] by blast
  from a show "\<forall>a\<in>set ns. \<not> IsSentinel (Some a) st"
    using Check_Nodes[of n st ns] by blast
next
  assume "NewBasic st0 = (st1, s)"
  from built[OF this, of kvs] obtain st' t where
    ia: "Insert_all (Some s) kvs st1 = Some (Inr st')" and tr: "tree_of st' s t" and b: "bst t"
    by blast
  from tr have rp: "rep st' s (Child_lo (cell st' s)) t" by (simp add: tree_of_def)
  have "\<forall>a\<in>set (addrs t). keyed st' a" using keyed_rep[OF rp] by blast
  then show "\<exists>st' ms. Insert_all (Some s) kvs st1 = Some (Inr st') \<and>
         Nodes (Some s) st' = Some (Inr ms) \<and> (\<forall>a\<in>set ms. keyed st' a) \<and>
         Check (Some s) Background st' = Some (Inr [])"
    using ia Nodes_tree_of[OF tr] Check_tree_of[OF tr b] by blast
qed

theorem Check_emits_out_of_order_witness:
  "Nodes (Some 0) disordered = Some (Inr [2, 1, 3]) \<and>
   list_all (keyed disordered) [2, 1, 3] \<and>
   Check (Some 0) Background disordered = Some (Inr [1]) \<and>
   NewBasic (empty_store :: (int, int) store) = (fst fresh_tree, snd fresh_tree) \<and>
   (\<exists>st'. tree_of_keys (rev [0..63]) = Some (Inr st') \<and>
      Check (Some (snd fresh_tree)) Background st' = Some (Inr []))"
proof -
  have n: "Nodes (Some 0) disordered = Some (Inr [2, 1, 3])" by code_simp
  have k: "list_all (keyed disordered) [2, 1, 3]" by code_simp
  have f: "filter (out_of_order disordered) [2, 1, 3] = [1]" by code_simp
  note T = Check_emits_out_of_order [where n = "Some 0" and st = disordered and ns = "[2, 1, 3]"
      and ?st0.0 = "empty_store :: (int, int) store" and ?st1.0 = "fst fresh_tree"
      and s = "snd fresh_tree" and kvs = "map (\<lambda>k. (k, - k)) (rev [0..63])"]
  have "Check (Some 0) Background disordered = Some (Inr [1])"
    using T n k f by (simp add: list_all_iff)
  moreover have "\<exists>st'. tree_of_keys (rev [0..63]) = Some (Inr st') \<and>
      Check (Some (snd fresh_tree)) Background st' = Some (Inr [])"
    using T NewBasic_fresh_tree unfolding tree_of_keys_def by blast
  ultimately show ?thesis using n k NewBasic_fresh_tree by blast
qed

text \<open>
  C8. \<^verbatim>\<open>Delete\<close> on the sentinel, or on a nil handle, returns without a panic and
  leaves the store as it was.
\<close>

theorem Delete_sentinel_or_nil:
  "IsSentinel n st \<or> n = None \<Longrightarrow> Delete n st = Some (Inr st)"
  by (subst Delete.simps) (auto simp: IsSentinel_def)

theorem Delete_sentinel_or_nil_witness:
  "IsSentinel (Some (snd fresh_tree)) (fst fresh_tree) \<and>
   Delete (Some (snd fresh_tree)) (fst fresh_tree) = Some (Inr (fst fresh_tree)) \<and>
   Delete None (fst fresh_tree) = Some (Inr (fst fresh_tree))"
proof -
  have h: "IsSentinel (Some (snd fresh_tree)) (fst fresh_tree)"
    by (simp add: fresh_tree_def NewBasic_def alloc_def put_def IsSentinel_def empty_store_def)
  show ?thesis
    using h Delete_sentinel_or_nil [of "Some (snd fresh_tree)" "fst fresh_tree"]
      Delete_sentinel_or_nil [of None "fst fresh_tree"]
    by simp
qed

text \<open>
  C9 is about goroutines and is not stated here: the model of \<^verbatim>\<open>Keys\<close> is
  sequential.
\<close>

text \<open>
  C10. On every store, a node that \<^verbatim>\<open>Get\<close> returns is not a sentinel and its key is
  the key asked for. At a sentinel, \<^verbatim>\<open>Get\<close> goes to the \<open>Lo\<close> child without a
  comparison. In a tree built by \<^verbatim>\<open>NewBasic\<close> and insertions the key of the sentinel is
  nil, a comparison with a nil key panics, and \<^verbatim>\<open>Get\<close> returns without a panic: the
  sentinel's key is never compared.
\<close>

theorem Get_never_sentinel:
  "(Get n k st = Some (Inr (Some r)) \<longrightarrow>
      \<not> IsSentinel (Some r) st \<and> k \<noteq> None \<and> Key (cell st r) = k) \<and>
   (IsSentinel (Some a) st \<longrightarrow> Get (Some a) k st = Get (Child_lo (cell st a)) k st) \<and>
   (NewBasic st0 = (st1, s) \<longrightarrow>
      (\<exists>st'. Insert_all (Some s) kvs st1 = Some (Inr st') \<and> IsSentinel (Some s) st' \<and>
         Key (cell st' s) = None \<and> (\<exists>r. Get (Some s) (Some x) st' = Some (Inr r))))"
proof (intro conjI impI)
  assume "Get n k st = Some (Inr (Some r))"
  from Get_result[OF this refl]
  show "\<not> IsSentinel (Some r) st" "k \<noteq> None" "Key (cell st r) = k" by simp_all
next
  assume "IsSentinel (Some a) st"
  then show "Get (Some a) k st = Get (Child_lo (cell st a)) k st"
    by (subst Get.simps) simp
next
  assume "NewBasic st0 = (st1, s)"
  from built[OF this, of kvs] obtain st' t where
    ia: "Insert_all (Some s) kvs st1 = Some (Inr st')" and tr: "tree_of st' s t"
    by blast
  from tr have "IsSentinel (Some s) st'" "Key (cell st' s) = None"
    by (simp_all add: tree_of_def IsSentinel_def)
  then show "\<exists>st'. Insert_all (Some s) kvs st1 = Some (Inr st') \<and> IsSentinel (Some s) st' \<and>
         Key (cell st' s) = None \<and> (\<exists>r. Get (Some s) (Some x) st' = Some (Inr r))"
    using ia Get_tree_of[OF tr, of x] by blast
qed

theorem Get_never_sentinel_witness:
  "Get (Some 0) (Some 3) three_keys = Some (Inr (Some 3)) \<and>
   \<not> IsSentinel (Some 3) three_keys \<and> Key (cell three_keys 3) = Some 3 \<and>
   IsSentinel (Some 0) three_keys \<and>
   Get (Some 0) (Some 3) three_keys = Get (Child_lo (cell three_keys 0)) (Some 3) three_keys \<and>
   NewBasic (empty_store :: (int, int) store) = (fst fresh_tree, snd fresh_tree) \<and>
   (\<exists>st'. tree_of_keys [2, 1, 3] = Some (Inr st') \<and> Key (cell st' (snd fresh_tree)) = None \<and>
      (\<exists>r. Get (Some (snd fresh_tree)) (Some 4) st' = Some (Inr r)))"
proof -
  have g: "Get (Some 0) (Some 3) three_keys = Some (Inr (Some 3))" by code_simp
  have i: "IsSentinel (Some 0) three_keys" by code_simp
  note T = Get_never_sentinel [where n = "Some 0" and k = "Some 3" and st = three_keys and r = 3
      and a = 0 and ?st0.0 = "empty_store :: (int, int) store" and ?st1.0 = "fst fresh_tree"
      and s = "snd fresh_tree" and kvs = "map (\<lambda>k. (k, - k)) [2, 1, 3]" and x = 4]
  have "\<not> IsSentinel (Some 3) three_keys \<and> Key (cell three_keys 3) = Some 3"
    using T g by blast
  moreover have "Get (Some 0) (Some 3) three_keys =
      Get (Child_lo (cell three_keys 0)) (Some 3) three_keys"
    using T i by blast
  moreover have "\<exists>st'. tree_of_keys [2, 1, 3] = Some (Inr st') \<and>
      Key (cell st' (snd fresh_tree)) = None \<and>
      (\<exists>r. Get (Some (snd fresh_tree)) (Some 4) st' = Some (Inr r))"
    using T NewBasic_fresh_tree unfolding tree_of_keys_def by blast
  ultimately show ?thesis using g i NewBasic_fresh_tree by blast
qed

end
